theory Spec2Isabelle
  imports Main "HOL-Library.AList"
begin

section \<open>The file system the script reads\<close>

text \<open>
  \<^verbatim>\<open>create_package.py\<close> only talks to the operating system: it walks a directory tree,
  tests paths for existence, reads and copies files, fills a temporary directory and
  writes one archive. The model is a POSIX file system without symbolic links: a tree of
  nodes under the root directory and a current working directory, the stack of names that
  leads to it. A regular file carries its mode, that is whether the process (which owns the
  files and is not privileged) may read it and may write it, and its bytes; every directory
  can be listed, entered and written to. Paths and names are strings of characters as the
  script handles them (a name that cannot be decoded is outside the model), and so are the
  bytes of a file. Creating and removing the temporary directory and printing are taken to
  succeed; every other call that can raise returns its error as a value.
\<close>

datatype mode = Mode (readable: bool) (writable: bool)

abbreviation rw_mode :: mode where "rw_mode \<equiv> Mode True True"
abbreviation ro_mode :: mode where "ro_mode \<equiv> Mode True False"
abbreviation wo_mode :: mode where "wo_mode \<equiv> Mode False True"

datatype node = File mode string | Dir "(string \<times> node) list"

record filesystem =
  fs_root :: node
  fs_cwd :: "string list"

datatype os_error =
    FileNotFoundError | IsADirectoryError | PermissionError | UnicodeDecodeError
  | OSError_ENAMETOOLONG | ValueError

text \<open>Following a list of names down from a node.\<close>

fun descend :: "node \<Rightarrow> string list \<Rightarrow> node option" where
  "descend t [] = Some t"
| "descend (File m c) (n # ns) = None"
| "descend (Dir es) (n # ns) =
     (case map_of es n of None \<Rightarrow> None | Some t \<Rightarrow> descend t ns)"

text \<open>A path string cut at every \<open>/\<close>, as \<^verbatim>\<open>p.split('/')\<close> does.\<close>

fun split_sep :: "string \<Rightarrow> string list" where
  "split_sep [] = [[]]"
| "split_sep (c # cs) =
     (if c = CHR ''/'' then [] # split_sep cs
      else (case split_sep cs of [] \<Rightarrow> [[c]] | w # ws \<Rightarrow> (c # w) # ws))"

text \<open>
  Path resolution, one component at a time: the directory reached so far must exist and be
  a directory before the next component is looked at; an empty component and \<open>.\<close> stay,
  \<open>..\<close> goes up (and stays at the root), a name must be an entry of the directory.
\<close>

fun walk_components :: "node \<Rightarrow> string list \<Rightarrow> string list \<Rightarrow> string list option" where
  "walk_components r stk [] = Some stk"
| "walk_components r stk (c # cs) =
     (case descend r stk of
        Some (Dir es) \<Rightarrow>
          if c = [] \<or> c = ''.'' then walk_components r stk cs
          else if c = ''..'' then walk_components r (butlast stk) cs
          else (case map_of es c of
                  None \<Rightarrow> None
                | Some t \<Rightarrow> walk_components r (stk @ [c]) cs)
      | _ \<Rightarrow> None)"

definition resolve :: "filesystem \<Rightarrow> string \<Rightarrow> node option" where
  "resolve fs p =
     (if p = [] then None
      else (case walk_components (fs_root fs)
                   (if hd p = CHR ''/'' then [] else fs_cwd fs) (split_sep p) of
              None \<Rightarrow> None
            | Some stk \<Rightarrow> descend (fs_root fs) stk))"

text \<open>\<^verbatim>\<open>os.path.exists\<close>: true for a file and for a directory, never raises.\<close>

definition os_path_exists :: "filesystem \<Rightarrow> string \<Rightarrow> bool" where
  "os_path_exists fs p = (resolve fs p \<noteq> None)"

text \<open>
  \<^verbatim>\<open>os.path.join(a, b)\<close> of \<^verbatim>\<open>posixpath\<close>: an absolute \<open>b\<close> replaces \<open>a\<close>; otherwise \<open>b\<close> is
  appended, after a \<open>/\<close> unless \<open>a\<close> is empty or ends in one.
\<close>

definition os_path_join :: "string \<Rightarrow> string \<Rightarrow> string" where
  "os_path_join a b =
     (if b \<noteq> [] \<and> hd b = CHR ''/'' then b
      else if a = [] \<or> last a = CHR ''/'' then a @ b
      else a @ ''/'' @ b)"

definition endswith :: "string \<Rightarrow> string \<Rightarrow> bool" where
  "endswith s suf = (length suf \<le> length s \<and> drop (length s - length suf) s = suf)"

text \<open>\<^verbatim>\<open>s.replace("\\", "/")\<close>: every backslash (byte 0x5C) becomes a slash.\<close>

definition replace_backslash :: "string \<Rightarrow> string" where
  "replace_backslash s = map (\<lambda>c. if c = CHR 0x5C then CHR ''/'' else c) s"

subsection \<open>Reading files\<close>

text \<open>
  Opening a path for reading fails when nothing is there (\<open>FileNotFoundError\<close> stands for
  both a missing entry and a file used as a directory), when it is a directory and when the
  file is not readable. \<^verbatim>\<open>shutil.copy2\<close> reads the bytes this way.
\<close>

definition read_bytes :: "filesystem \<Rightarrow> string \<Rightarrow> os_error + string" where
  "read_bytes fs p =
     (case resolve fs p of
        None \<Rightarrow> Inl FileNotFoundError
      | Some (Dir es) \<Rightarrow> Inl IsADirectoryError
      | Some (File m c) \<Rightarrow> if readable m then Inr c else Inl PermissionError)"

text \<open>
  Reading as text with \<^verbatim>\<open>encoding='utf-8'\<close> decodes the bytes strictly: no overlong form, no
  surrogate, nothing above U+10FFFF.
\<close>

definition cont_byte :: "char \<Rightarrow> bool" where
  "cont_byte c = (0x80 \<le> (of_char c :: nat) \<and> (of_char c :: nat) \<le> 0xBF)"

definition in_range :: "nat \<Rightarrow> nat \<Rightarrow> char \<Rightarrow> bool" where
  "in_range lo hi c = (lo \<le> (of_char c :: nat) \<and> (of_char c :: nat) \<le> hi)"

fun utf8_valid :: "string \<Rightarrow> bool" where
  "utf8_valid [] = True"
| "utf8_valid (a # bs) =
     (if in_range 0x00 0x7F a then utf8_valid bs
      else if in_range 0xC2 0xDF a then
        (case bs of b # r \<Rightarrow> cont_byte b \<and> utf8_valid r | _ \<Rightarrow> False)
      else if in_range 0xE0 0xEF a then
        (case bs of
           b # c # r \<Rightarrow>
             (if a = CHR 0xE0 then in_range 0xA0 0xBF b
              else if a = CHR 0xED then in_range 0x80 0x9F b
              else cont_byte b) \<and> cont_byte c \<and> utf8_valid r
         | _ \<Rightarrow> False)
      else if in_range 0xF0 0xF4 a then
        (case bs of
           b # c # d # r \<Rightarrow>
             (if a = CHR 0xF0 then in_range 0x90 0xBF b
              else if a = CHR 0xF4 then in_range 0x80 0x8F b
              else cont_byte b) \<and> cont_byte c \<and> cont_byte d \<and> utf8_valid r
         | _ \<Rightarrow> False)
      else False)"

definition read_text :: "filesystem \<Rightarrow> string \<Rightarrow> os_error + string" where
  "read_text fs p =
     (case read_bytes fs p of
        Inl e \<Rightarrow> Inl e
      | Inr c \<Rightarrow> if utf8_valid c then Inr c else Inl UnicodeDecodeError)"

section \<open>The pattern \<^verbatim>\<open>guid:\s*([a-f0-9]+)\<close>\<close>

text \<open>
  The decoded text is kept as its UTF-8 bytes. The pattern's literal and its character class
  are ASCII, and an ASCII byte of well-formed UTF-8 is always a character of its own, so they
  match on the bytes as they do on the characters. \<^verbatim>\<open>\s\<close> on a \<^verbatim>\<open>str\<close> is Unicode white space:
  the ASCII characters 09-0D, 1C-1F and 20, and U+0085, U+00A0, U+1680, U+2000-U+200A,
  U+2028, U+2029, U+202F, U+205F, U+3000, listed here by their encodings. (Text mode turns
  \<^verbatim>\<open>\r\n\<close> and \<^verbatim>\<open>\r\<close> into \<^verbatim>\<open>\n\<close>; all three are white space, so no match and no group changes.)
\<close>

definition space_encodings :: "string list" where
  "space_encodings =
     [[CHR 0x09], [CHR 0x0A], [CHR 0x0B], [CHR 0x0C], [CHR 0x0D],
      [CHR 0x1C], [CHR 0x1D], [CHR 0x1E], [CHR 0x1F], [CHR 0x20],
      [CHR 0xC2, CHR 0x85], [CHR 0xC2, CHR 0xA0],
      [CHR 0xE1, CHR 0x9A, CHR 0x80],
      [CHR 0xE2, CHR 0x80, CHR 0x80], [CHR 0xE2, CHR 0x80, CHR 0x81],
      [CHR 0xE2, CHR 0x80, CHR 0x82], [CHR 0xE2, CHR 0x80, CHR 0x83],
      [CHR 0xE2, CHR 0x80, CHR 0x84], [CHR 0xE2, CHR 0x80, CHR 0x85],
      [CHR 0xE2, CHR 0x80, CHR 0x86], [CHR 0xE2, CHR 0x80, CHR 0x87],
      [CHR 0xE2, CHR 0x80, CHR 0x88], [CHR 0xE2, CHR 0x80, CHR 0x89],
      [CHR 0xE2, CHR 0x80, CHR 0x8A],
      [CHR 0xE2, CHR 0x80, CHR 0xA8], [CHR 0xE2, CHR 0x80, CHR 0xA9],
      [CHR 0xE2, CHR 0x80, CHR 0xAF], [CHR 0xE2, CHR 0x81, CHR 0x9F],
      [CHR 0xE3, CHR 0x80, CHR 0x80]]"

definition startswith :: "string \<Rightarrow> string \<Rightarrow> bool" where
  "startswith s pre = (take (length pre) s = pre)"

text \<open>One white-space character off the front, if there is one.\<close>

definition strip_space :: "string \<Rightarrow> string option" where
  "strip_space s =
     (case find (startswith s) space_encodings of
        None \<Rightarrow> None
      | Some w \<Rightarrow> Some (drop (length w) s))"

lemma strip_space_shorter: "strip_space s = Some r \<Longrightarrow> length r < length s"
proof -
  assume a: "strip_space s = Some r"
  then obtain w where w: "find (startswith s) space_encodings = Some w" and r: "r = drop (length w) s"
    by (auto simp: strip_space_def split: option.splits)
  from w have "w \<in> set space_encodings" and sw: "startswith s w"
    by (auto simp: find_Some_iff)
  then have "w \<noteq> []" by (auto simp: space_encodings_def)
  with sw have "s \<noteq> []" by (auto simp: startswith_def)
  with \<open>w \<noteq> []\<close> r show ?thesis by simp
qed

text \<open>\<^verbatim>\<open>\s*\<close>: all the white space at the front is consumed.\<close>

function skip_spaces :: "string \<Rightarrow> string" where
  "skip_spaces s = (case strip_space s of None \<Rightarrow> s | Some r \<Rightarrow> skip_spaces r)"
  by pat_completeness auto
termination
  by (relation "measure length") (auto simp: strip_space_shorter)

declare skip_spaces.simps [simp del]

definition is_hex :: "char \<Rightarrow> bool" where
  "is_hex c = (c \<in> set ''abcdef0123456789'')"

text \<open>
  The pattern tried at the front of a string. Its group is the longest run of \<open>[a-f0-9]\<close>
  after the white space: white space is never in the class, so giving some of it back
  cannot produce a match that the greedy attempt missed.
\<close>

definition match_here :: "string \<Rightarrow> string option" where
  "match_here s =
     (if startswith s ''guid:'' then
        (let tok = takeWhile is_hex (skip_spaces (drop 5 s))
         in if tok = [] then None else Some tok)
      else None)"

text \<open>\<^verbatim>\<open>re.search\<close>: the pattern tried at each position from the left, the first match wins.\<close>

fun re_search :: "string \<Rightarrow> string option" where
  "re_search [] = match_here []"
| "re_search (c # cs) =
     (case match_here (c # cs) of Some tok \<Rightarrow> Some tok | None \<Rightarrow> re_search cs)"

section \<open>The script\<close>

text \<open>What the script prints, one value for each \<^verbatim>\<open>print\<close> (sizes and absolute paths left out).\<close>

datatype message =
    Creating string
  | AssetsFolder string
  | Found nat
  | ErrorReading string os_error
  | Skipping string
  | Adding string string
  | CreatingArchive
  | PackageCreated string

subsection \<open>\<^verbatim>\<open>extract_guid\<close>\<close>

text \<open>
  The body of the \<^verbatim>\<open>try\<close> may raise while opening or decoding; the handler prints one line
  and falls through to \<^verbatim>\<open>return None\<close>, as a text without a match does. The result is the
  returned value and the lines printed.
\<close>

definition extract_guid_body :: "filesystem \<Rightarrow> string \<Rightarrow> os_error + string option" where
  "extract_guid_body fs meta_file_path =
     (case read_text fs meta_file_path of
        Inl e \<Rightarrow> Inl e
      | Inr content \<Rightarrow> Inr (re_search content))"

definition extract_guid :: "filesystem \<Rightarrow> string \<Rightarrow> string option \<times> message list" where
  "extract_guid fs meta_file_path =
     (case extract_guid_body fs meta_file_path of
        Inl e \<Rightarrow> (None, [ErrorReading meta_file_path e])
      | Inr (Some tok) \<Rightarrow> (Some tok, [])
      | Inr None \<Rightarrow> (None, []))"

subsection \<open>\<^verbatim>\<open>os.walk\<close>\<close>

text \<open>
  \<^verbatim>\<open>os.walk(top)\<close> lists \<open>top\<close>, yields \<open>(top, dirs, files)\<close> and then walks each directory
  of \<open>dirs\<close> under the path \<^verbatim>\<open>join(top, name)\<close>, top down. A \<open>top\<close> that cannot be listed
  (missing, or a file) yields nothing: the error is ignored.
\<close>

definition is_dir_node :: "node \<Rightarrow> bool" where
  "is_dir_node t = (case t of Dir es \<Rightarrow> True | File m c \<Rightarrow> False)"

definition dir_names :: "(string \<times> node) list \<Rightarrow> string list" where
  "dir_names es = map fst (filter (\<lambda>e. is_dir_node (snd e)) es)"

definition file_names :: "(string \<times> node) list \<Rightarrow> string list" where
  "file_names es = map fst (filter (\<lambda>e. \<not> is_dir_node (snd e)) es)"

fun os_walk_node :: "string \<Rightarrow> node \<Rightarrow> (string \<times> string list \<times> string list) list"
and os_walk_subdirs ::
  "string \<Rightarrow> (string \<times> node) list \<Rightarrow> (string \<times> string list \<times> string list) list" where
  "os_walk_node tp (File m c) = []"
| "os_walk_node tp (Dir es) = (tp, dir_names es, file_names es) # os_walk_subdirs tp es"
| "os_walk_subdirs tp [] = []"
| "os_walk_subdirs tp ((n, t) # es) =
     os_walk_node (os_path_join tp n) t @ os_walk_subdirs tp es"

definition os_walk :: "filesystem \<Rightarrow> string \<Rightarrow> (string \<times> string list \<times> string list) list" where
  "os_walk fs tp =
     (case resolve fs tp of
        Some (Dir es) \<Rightarrow> os_walk_node tp (Dir es)
      | _ \<Rightarrow> [])"

subsection \<open>\<^verbatim>\<open>get_all_assets\<close>\<close>

record asset_record =
  path :: string
  meta :: string
  is_folder :: bool
  asset :: "string option"

definition folder_record :: "string \<Rightarrow> asset_record" where
  "folder_record root =
     \<lparr>path = replace_backslash root, meta = root @ ''.meta'', is_folder = True, asset = None\<rparr>"

definition file_record :: "string \<Rightarrow> asset_record" where
  "file_record file_path =
     \<lparr>path = replace_backslash file_path, meta = file_path @ ''.meta'',
      is_folder = False, asset = Some file_path\<rparr>"

text \<open>The inner loop over the files of one directory.\<close>

definition file_assets :: "filesystem \<Rightarrow> string \<Rightarrow> string list \<Rightarrow> asset_record list" where
  "file_assets fs root files =
     concat (map (\<lambda>file.
       if endswith file ''.meta'' then []
       else (let file_path = os_path_join root file
             in if os_path_exists fs (file_path @ ''.meta'') then [file_record file_path]
                else [])) files)"

text \<open>The body of the outer loop, for one triple of the walk.\<close>

definition visit :: "filesystem \<Rightarrow> string \<times> string list \<times> string list \<Rightarrow> asset_record list" where
  "visit fs w =
     (case w of (root, dirs, files) \<Rightarrow>
        (if os_path_exists fs (root @ ''.meta'') then [folder_record root] else [])
        @ file_assets fs root files)"

definition walk_assets :: "filesystem \<Rightarrow> string \<Rightarrow> asset_record list" where
  "walk_assets fs base_path = concat (map (visit fs) (os_walk fs base_path))"

definition get_all_assets :: "filesystem \<Rightarrow> string \<Rightarrow> asset_record list" where
  "get_all_assets fs base_path =
     (let assets = walk_assets fs base_path
      in if os_path_exists fs (base_path @ ''.meta'')
         then folder_record base_path # assets
         else assets)"

subsection \<open>The staging directory\<close>

text \<open>
  \<^verbatim>\<open>tempfile.mkdtemp()\<close> makes a new, empty directory that nothing else names, so it is kept
  beside the tree the assets come from: its entries by name, each a directory of files by
  name, each file with its mode and its bytes. A GUID is a non-empty run of \<open>[a-f0-9]\<close>, so
  \<^verbatim>\<open>join(temp_dir, guid)\<close> is the entry of that name.
\<close>

type_synonym entry = "(string \<times> mode \<times> string) list"
type_synonym staging = "(string \<times> entry) list"

text \<open>
  \<^verbatim>\<open>os.makedirs(guid_folder, exist_ok=True)\<close>: an entry that is there is left alone; a new one
  is made unless its name is longer than a file name may be (\<open>NAME_MAX\<close>, 255 on the
  usual file systems), which raises \<^verbatim>\<open>OSError\<close> with \<open>ENAMETOOLONG\<close>.
\<close>

definition name_max :: nat where
  "name_max = 255"

definition makedirs :: "staging \<Rightarrow> string \<Rightarrow> os_error + staging" where
  "makedirs st g =
     (case map_of st g of
        Some e \<Rightarrow> Inr st
      | None \<Rightarrow> if name_max < length g then Inl OSError_ENAMETOOLONG else Inr (st @ [(g, [])]))"

text \<open>
  Opening a file of an entry for writing succeeds when the file is not there yet or is
  writable. \<open>mode_in\<close> is the mode the file has afterwards when only its content is written:
  its old mode, or the mode of a new file.
\<close>

definition writable_in :: "staging \<Rightarrow> string \<Rightarrow> string \<Rightarrow> bool" where
  "writable_in st g name =
     (case map_of st g of
        None \<Rightarrow> True
      | Some e \<Rightarrow> (case map_of e name of None \<Rightarrow> True | Some f \<Rightarrow> writable (fst f)))"

definition mode_in :: "staging \<Rightarrow> string \<Rightarrow> string \<Rightarrow> mode" where
  "mode_in st g name =
     (case map_of st g of
        None \<Rightarrow> rw_mode
      | Some e \<Rightarrow> (case map_of e name of None \<Rightarrow> rw_mode | Some f \<Rightarrow> fst f))"

text \<open>The file \<open>name\<close> of the entry \<open>g\<close> set to a mode and a content.\<close>

definition put_file :: "staging \<Rightarrow> string \<Rightarrow> string \<Rightarrow> mode \<Rightarrow> string \<Rightarrow> staging" where
  "put_file st g name m content = AList.map_entry g (AList.update name (m, content)) st"

text \<open>\<^verbatim>\<open>with open(file, 'w', encoding='utf-8') as f: f.write(content)\<close>\<close>

definition write_file :: "staging \<Rightarrow> string \<Rightarrow> string \<Rightarrow> string \<Rightarrow> os_error + staging" where
  "write_file st g name content =
     (if writable_in st g name then Inr (put_file st g name (mode_in st g name) content)
      else Inl PermissionError)"

text \<open>
  \<^verbatim>\<open>shutil.copy2(src, dst)\<close> opens \<open>src\<close> for reading, then \<open>dst\<close> for writing, copies the bytes
  and gives \<open>dst\<close> the mode of \<open>src\<close>. So the copy of a read-only file is read-only, and
  copying onto it again raises \<^verbatim>\<open>PermissionError\<close>.
\<close>

definition mode_of :: "filesystem \<Rightarrow> string \<Rightarrow> mode" where
  "mode_of fs p = (case resolve fs p of Some (File m c) \<Rightarrow> m | _ \<Rightarrow> rw_mode)"

definition shutil_copy2 ::
  "filesystem \<Rightarrow> string \<Rightarrow> staging \<Rightarrow> string \<Rightarrow> string \<Rightarrow> os_error + staging" where
  "shutil_copy2 fs src_path st g name =
     (case read_bytes fs src_path of
        Inl e \<Rightarrow> Inl e
      | Inr c \<Rightarrow>
          if writable_in st g name then Inr (put_file st g name (mode_of fs src_path) c)
          else Inl PermissionError)"

text \<open>
  One round of the loop over the assets. A phase that raises hands back the error with the
  state it leaves behind. \<open>falsy\<close> is Python's \<^verbatim>\<open>not\<close> on a string or \<^verbatim>\<open>None\<close>; \<open>the\<close> is only
  applied where \<open>falsy\<close> has ruled \<open>None\<close> out.
\<close>

type_synonym stage_state = "staging \<times> message list"

definition falsy :: "string option \<Rightarrow> bool" where
  "falsy v = (case v of None \<Rightarrow> True | Some s \<Rightarrow> s = [])"

definition stage_asset ::
  "filesystem \<Rightarrow> asset_record \<Rightarrow> stage_state \<Rightarrow> os_error \<times> stage_state + stage_state" where
  "stage_asset fs a s =
     (case s of (st, out) \<Rightarrow>
      (case extract_guid fs (meta a) of (guid, errs) \<Rightarrow>
       if falsy guid then Inr (st, out @ errs @ [Skipping (path a)])
       else
         (let g = the guid;
              out1 = out @ errs @ [Adding (path a) (take 8 g)]
          in case makedirs st g of
               Inl e \<Rightarrow> Inl (e, (st, out1))
             | Inr st1 \<Rightarrow>
            (case write_file st1 g ''pathname'' (path a) of
               Inl e \<Rightarrow> Inl (e, (st1, out1))
             | Inr st2 \<Rightarrow>
            (case shutil_copy2 fs (meta a) st2 g ''asset.meta'' of
               Inl e \<Rightarrow> Inl (e, (st2, out1))
             | Inr st3 \<Rightarrow>
                 if \<not> is_folder a \<and> \<not> falsy (asset a) then
                   (case shutil_copy2 fs (the (asset a)) st3 g ''asset'' of
                      Inl e \<Rightarrow> Inl (e, (st3, out1))
                    | Inr st4 \<Rightarrow> Inr (st4, out1))
                 else Inr (st3, out1))))))"

fun stage_all ::
  "filesystem \<Rightarrow> asset_record list \<Rightarrow> stage_state \<Rightarrow> os_error \<times> stage_state + stage_state" where
  "stage_all fs [] s = Inr s"
| "stage_all fs (a # as) s =
     (case stage_asset fs a s of
        Inl err \<Rightarrow> Inl err
      | Inr s' \<Rightarrow> stage_all fs as s')"

subsection \<open>The archive\<close>

text \<open>
  \<^verbatim>\<open>tarfile.open(output_path, "w:gz")\<close> refuses an empty name and otherwise creates or
  truncates the file: it fails on a directory, on a name that ends in a slash, on a file
  that is not writable, and where the directory of the new file is missing
  (\<open>FileNotFoundError\<close> here also for a file used as a directory).
\<close>

definition strip_slashes :: "string list \<Rightarrow> string list" where
  "strip_slashes cs = rev (dropWhile (\<lambda>c. c = []) (rev cs))"

definition open_for_write :: "filesystem \<Rightarrow> string \<Rightarrow> os_error + unit" where
  "open_for_write fs p =
     (if p = [] then Inl ValueError
      else
        (case resolve fs p of
           Some (Dir es) \<Rightarrow> Inl IsADirectoryError
         | Some (File m c) \<Rightarrow> if writable m then Inr () else Inl PermissionError
         | None \<Rightarrow>
             (case walk_components (fs_root fs)
                     (if hd p = CHR ''/'' then [] else fs_cwd fs)
                     (butlast (strip_slashes (split_sep p))) of
                None \<Rightarrow> Inl FileNotFoundError
              | Some stk \<Rightarrow>
                  (case descend (fs_root fs) stk of
                     Some (Dir es) \<Rightarrow>
                       if last (split_sep p) = [] then Inl IsADirectoryError else Inr ()
                   | _ \<Rightarrow> Inl FileNotFoundError))))"

text \<open>
  The archive written: where, in which mode, and its members. \<^verbatim>\<open>tar.add(item_path,
  arcname=item)\<close> adds the directory \<open>item_path\<close> with everything in it under the name \<open>item\<close>,
  so a member is a name of the top level with the files below it. \<^verbatim>\<open>os.listdir\<close> promises no
  order; the entries are listed here in the order of their creation.
\<close>

record archive =
  arc_path :: string
  arc_mode :: string
  arc_members :: "(string \<times> entry) list"

definition os_listdir :: "staging \<Rightarrow> string list" where
  "os_listdir st = map fst st"

definition tar_add :: "staging \<Rightarrow> string \<Rightarrow> string \<times> entry" where
  "tar_add st item = (item, (case map_of st item of None \<Rightarrow> [] | Some e \<Rightarrow> e))"

definition write_archive :: "filesystem \<Rightarrow> string \<Rightarrow> staging \<Rightarrow> os_error + archive" where
  "write_archive fs output_path st =
     (case open_for_write fs output_path of
        Inl e \<Rightarrow> Inl e
      | Inr u \<Rightarrow>
          Inr \<lparr>arc_path = output_path, arc_mode = ''w:gz'',
               arc_members = map (tar_add st) (os_listdir st)\<rparr>)"

subsection \<open>\<^verbatim>\<open>create_unitypackage\<close>\<close>

text \<open>
  What a run leaves behind: the exception that ended it, if one did; the temporary
  directory, if it is still there; the archive, if one was written; the lines printed.
\<close>

record outcome =
  raised :: "os_error option"
  temp_dir :: "staging option"
  written :: "archive option"
  printed :: "message list"

text \<open>The \<^verbatim>\<open>try\<close> block, started on the new empty directory.\<close>

definition try_block ::
  "filesystem \<Rightarrow> string \<Rightarrow> asset_record list \<Rightarrow> message list \<Rightarrow> outcome" where
  "try_block fs output_path assets out =
     (case stage_all fs assets ([], out) of
        Inl (e, (st, out1)) \<Rightarrow>
          \<lparr>raised = Some e, temp_dir = Some st, written = None, printed = out1\<rparr>
      | Inr (st, out1) \<Rightarrow>
          (case write_archive fs output_path st of
             Inl e \<Rightarrow>
               \<lparr>raised = Some e, temp_dir = Some st, written = None,
                printed = out1 @ [CreatingArchive]\<rparr>
           | Inr arc \<Rightarrow>
               \<lparr>raised = None, temp_dir = Some st, written = Some arc,
                printed = out1 @ [CreatingArchive, PackageCreated output_path]\<rparr>))"

text \<open>The \<^verbatim>\<open>finally\<close> block: \<^verbatim>\<open>shutil.rmtree(temp_dir)\<close>.\<close>

definition shutil_rmtree :: "outcome \<Rightarrow> outcome" where
  "shutil_rmtree oc = oc\<lparr>temp_dir := None\<rparr>"

definition create_unitypackage :: "filesystem \<Rightarrow> string \<Rightarrow> string \<Rightarrow> outcome" where
  "create_unitypackage fs output_path assets_folder =
     (let assets = get_all_assets fs assets_folder;
          out = [Creating output_path, AssetsFolder assets_folder, Found (length assets)]
      in shutil_rmtree (try_block fs output_path assets out))"

section \<open>The pattern as the specification words it\<close>

text \<open>
  The specification describes the pattern as \<open>guid:\<close> followed by white space and a
  lower-case hexadecimal token. Read to the letter, that asks for at least one white-space
  character between the colon and the token. These two definitions follow the
  specification's words, to be compared with \<open>match_here\<close> and \<open>re_search\<close>, which follow the
  regular expression of the source.
\<close>

definition stated_match_here :: "string \<Rightarrow> string option" where
  "stated_match_here s =
     (if startswith s ''guid:'' then
        (case strip_space (drop 5 s) of
           None \<Rightarrow> None
         | Some r \<Rightarrow>
             (let tok = takeWhile is_hex (skip_spaces r)
              in if tok = [] then None else Some tok))
      else None)"

fun stated_search :: "string \<Rightarrow> string option" where
  "stated_search [] = stated_match_here []"
| "stated_search (c # cs) =
     (case stated_match_here (c # cs) of Some tok \<Rightarrow> Some tok | None \<Rightarrow> stated_search cs)"

section \<open>Reading the staging directory and the text\<close>

text \<open>The content of the file \<open>name\<close> of the entry \<open>g\<close>, if both exist.\<close>

definition staged_file :: "staging \<Rightarrow> string \<Rightarrow> string \<Rightarrow> string option" where
  "staged_file st g name =
     (case map_of st g of None \<Rightarrow> None | Some e \<Rightarrow> map_option snd (map_of e name))"

text \<open>
  The entry \<open>g\<close> once its \<open>pathname\<close> is written and its \<open>asset.meta\<close> copied, with no regard
  to modes.
\<close>

definition staged3 :: "staging \<Rightarrow> string \<Rightarrow> string \<Rightarrow> mode \<Rightarrow> string \<Rightarrow> staging" where
  "staged3 st g p mm m =
     put_file (put_file st g ''pathname'' (mode_in st g ''pathname'') p) g ''asset.meta'' mm m"

text \<open>No match of the pattern starts inside \<open>pre\<close>, when \<open>s\<close> follows it.\<close>

fun unmatched_prefix :: "string \<Rightarrow> string \<Rightarrow> bool" where
  "unmatched_prefix [] s = True"
| "unmatched_prefix (c # pre) s = (match_here (c # pre @ s) = None \<and> unmatched_prefix pre s)"

section \<open>Well-formed trees and the paths of the walk\<close>

text \<open>
  In a file system the names of a directory are different from one another, not empty and
  free of \<open>/\<close>.
\<close>

fun wf_node :: "node \<Rightarrow> bool" and wf_entries :: "(string \<times> node) list \<Rightarrow> bool" where
  "wf_node (File m c) = True"
| "wf_node (Dir es) = (distinct (map fst es) \<and> wf_entries es)"
| "wf_entries [] = True"
| "wf_entries ((n, t) # es) = (n \<noteq> [] \<and> CHR ''/'' \<notin> set n \<and> wf_node t \<and> wf_entries es)"

text \<open>
  The path under which the walk from \<open>tp\<close> reaches the node that the names \<open>ns\<close> lead to, and
  \<open>tp\<close> as the front of the paths of everything in it.
\<close>

definition render :: "string \<Rightarrow> string list \<Rightarrow> string" where
  "render tp ns = foldl os_path_join tp ns"

definition dir_prefix :: "string \<Rightarrow> string" where
  "dir_prefix tp = os_path_join tp []"

text \<open>
  The path a record was made from, the records made from a list of triples of the walk, and
  a path that lies in or under the entry \<open>n\<close> of the directory with the front \<open>B\<close>.
\<close>

definition src :: "asset_record \<Rightarrow> string" where
  "src a = take (length (meta a) - length ''.meta'') (meta a)"

definition assets_of :: "filesystem \<Rightarrow> (string \<times> string list \<times> string list) list \<Rightarrow> asset_record list" where
  "assets_of fs ws = concat (map (visit fs) ws)"

definition below :: "string \<Rightarrow> string \<Rightarrow> string \<Rightarrow> bool" where
  "below B n p = (\<exists>rest. p = B @ n @ rest \<and> (rest = [] \<or> hd rest = CHR ''/''))"

section \<open>Example file systems\<close>

text \<open>Three metadata files in the working directory, one of them unreadable.\<close>

definition fs_guids :: filesystem where
  "fs_guids =
     \<lparr>fs_root = Dir [(''a.meta'', File rw_mode ''guid:ab''),
                     (''b.meta'', File rw_mode ''fileFormatVersion: 2''),
                     (''c.meta'', File wo_mode ''guid: 0f'')],
      fs_cwd = []\<rparr>"

text \<open>Two more metadata files: a truncated identifier, and a token that is no identifier.\<close>

definition fs_tokens :: filesystem where
  "fs_tokens =
     \<lparr>fs_root = Dir [(''d.meta'', File rw_mode ''x guid: Zguid:  0f9Aab''),
                     (''e.meta'', File rw_mode ''guid: XYZ'')],
      fs_cwd = []\<rparr>"

text \<open>
  A package: the folder \<open>A\<close> with its own sidecar; in it (\<open>es_pkg\<close>) a file and a sub-folder
  whose sidecars carry the same identifier, and a file whose sidecar carries none. \<open>st_pkg\<close>
  and \<open>out_pkg\<close> are the staging directory and the lines printed once its assets are staged.
\<close>

definition es_pkg :: "(string \<times> node) list" where
  "es_pkg =
     [(''f'', File rw_mode ''hello''),
      (''f.meta'', File rw_mode ''guid: ab''),
      (''Broken.cs'', File rw_mode ''x''),
      (''Broken.cs.meta'', File rw_mode ''no id''),
      (''d'', Dir []),
      (''d.meta'', File rw_mode ''guid: ab'')]"

definition fs_pkg :: filesystem where
  "fs_pkg =
     \<lparr>fs_root =
        Dir [(''A'', Dir es_pkg), (''A.meta'', File rw_mode ''guid: 12'')],
      fs_cwd = []\<rparr>"

definition st_pkg :: staging where
  "st_pkg =
     [(''12'', [(''pathname'', rw_mode, ''A''), (''asset.meta'', rw_mode, ''guid: 12'')]),
      (''ab'', [(''pathname'', rw_mode, ''A/d''), (''asset.meta'', rw_mode, ''guid: ab''),
               (''asset'', rw_mode, ''hello'')])]"

definition out_pkg :: "message list" where
  "out_pkg =
     [Adding ''A'' ''12'', Adding ''A'' ''12'', Adding ''A/f'' ''ab'',
      Skipping ''A/Broken.cs'', Adding ''A/d'' ''ab'']"

text \<open>
  The entry \<open>ab\<close> of the example package: after the file \<open>A/f\<close> alone, after the file and
  then the folder \<open>A/d\<close>, and after the folder alone.
\<close>

definition st_file :: staging where
  "st_file =
     [(''ab'', [(''pathname'', rw_mode, ''A/f''), (''asset.meta'', rw_mode, ''guid: ab''),
               (''asset'', rw_mode, ''hello'')])]"

definition st_both :: staging where
  "st_both =
     [(''ab'', [(''pathname'', rw_mode, ''A/d''), (''asset.meta'', rw_mode, ''guid: ab''),
               (''asset'', rw_mode, ''hello'')])]"

definition st_folder :: staging where
  "st_folder = [(''ab'', [(''pathname'', rw_mode, ''A/d''), (''asset.meta'', rw_mode, ''guid: ab'')])]"

text \<open>
  A file whose name has a backslash in it, with its sidecar, and the staging directory its
  asset makes.
\<close>

definition fs_win :: filesystem where
  "fs_win =
     \<lparr>fs_root =
        Dir [(''B'', Dir [([CHR ''s'', CHR 0x5C, CHR ''t''], File rw_mode ''data''),
                         ([CHR ''s'', CHR 0x5C, CHR ''t''] @ ''.meta'', File rw_mode ''guid: cd'')])],
      fs_cwd = []\<rparr>"

definition st_win :: staging where
  "st_win =
     [(''cd'', [(''pathname'', rw_mode, ''B/s/t''), (''asset.meta'', rw_mode, ''guid: cd''),
               (''asset'', rw_mode, ''data'')])]"

text \<open>A folder with one asset whose content file cannot be read.\<close>

definition fs_locked :: filesystem where
  "fs_locked =
     \<lparr>fs_root = Dir [(''A'', Dir [(''k'', File wo_mode ''secret''),
                                  (''k.meta'', File rw_mode ''guid: 0a'')])],
      fs_cwd = []\<rparr>"

text \<open>Two metadata files in which the pattern matches more than once, or only late.\<close>

definition fs_later :: filesystem where
  "fs_later =
     \<lparr>fs_root = Dir [(''m.meta'', File rw_mode ''guid: ab guid: cd''),
                     (''n.meta'', File rw_mode ''guid: XYZ guid: ab'')],
      fs_cwd = []\<rparr>"

text \<open>
  An empty folder \<open>A\<close> whose sidecar is read-only, and the staging directory once \<open>A\<close> is
  staged: the copy of the sidecar is read-only too.
\<close>

definition fs_ro :: filesystem where
  "fs_ro =
     \<lparr>fs_root = Dir [(''A'', Dir []), (''A.meta'', File ro_mode ''guid: 12'')],
      fs_cwd = []\<rparr>"

definition st_ro :: staging where
  "st_ro = [(''12'', [(''pathname'', rw_mode, ''A''), (''asset.meta'', ro_mode, ''guid: 12'')])]"

text \<open>
  A file and a folder with the same identifier, the file's sidecar read-only, and the
  staging directory once the file is staged.
\<close>

definition fs_ro_pair :: filesystem where
  "fs_ro_pair =
     \<lparr>fs_root =
        Dir [(''A'', Dir [(''f'', File rw_mode ''hello''),
                         (''f.meta'', File ro_mode ''guid: ab''),
                         (''d'', Dir []),
                         (''d.meta'', File rw_mode ''guid: ab'')])],
      fs_cwd = []\<rparr>"

definition st_ro_pair :: staging where
  "st_ro_pair =
     [(''ab'', [(''pathname'', rw_mode, ''A/f''), (''asset.meta'', ro_mode, ''guid: ab''),
               (''asset'', rw_mode, ''hello'')])]"


section \<open>Facts about the pattern\<close>

text \<open>
  Each encoding of \<open>space_encodings\<close> is stripped as a whole whatever follows it, and none of
  them starts with a character of the class \<open>[a-f0-9]\<close>.
\<close>

lemma enc_all: "\<forall>w \<in> set space_encodings. strip_space (w @ x) = Some x"
  by (simp add: space_encodings_def strip_space_def startswith_def)

lemma enc_not_hex: "\<forall>w \<in> set space_encodings. \<not> is_hex (hd w) \<and> w \<noteq> []"
  by (simp add: space_encodings_def is_hex_def)

lemma strip_space_split: "strip_space s = Some r \<Longrightarrow> \<exists>w \<in> set space_encodings. s = w @ r"
proof -
  assume a: "strip_space s = Some r"
  then obtain w where w: "find (startswith s) space_encodings = Some w" and r: "r = drop (length w) s"
    by (auto simp: strip_space_def split: option.splits)
  from w have "w \<in> set space_encodings" and sw: "startswith s w"
    by (auto simp: find_Some_iff)
  moreover from sw r have "s = w @ r" unfolding startswith_def by (metis append_take_drop_id)
  ultimately show ?thesis by blast
qed

lemma strip_space_hex: "is_hex c \<Longrightarrow> strip_space (c # r) = None"
proof (rule ccontr)
  assume h: "is_hex c" and "strip_space (c # r) \<noteq> None"
  then obtain r' where "strip_space (c # r) = Some r'" by blast
  then obtain w where w: "w \<in> set space_encodings" "c # r = w @ r'"
    using strip_space_split by blast
  with enc_not_hex have "\<not> is_hex (hd w)" "w \<noteq> []" by blast+
  with w(2) have "hd w = c" by (cases w) auto
  with \<open>\<not> is_hex (hd w)\<close> h show False by simp
qed

lemma skip_spaces_fix: "strip_space s = None \<Longrightarrow> skip_spaces s = s"
  by (subst skip_spaces.simps) simp

lemma skip_spaces_append: "skip_spaces ws = [] \<Longrightarrow> skip_spaces (ws @ r) = skip_spaces r"
proof (induction ws rule: skip_spaces.induct)
  case (1 s)
  show ?case
  proof (cases "strip_space s")
    case None
    then have "skip_spaces s = s" by (rule skip_spaces_fix)
    with "1.prems" have "s = []" by simp
    then show ?thesis by simp
  next
    case (Some s')
    then obtain w where w: "w \<in> set space_encodings" "s = w @ s'" using strip_space_split by blast
    from Some have "skip_spaces s = skip_spaces s'" by (subst skip_spaces.simps) simp
    with "1.prems" have "skip_spaces s' = []" by simp
    with "1.IH"[OF Some] have ih: "skip_spaces (s' @ r) = skip_spaces r" by simp
    have "strip_space (s @ r) = Some (s' @ r)" using w enc_all[of "s' @ r"] by simp
    then have "skip_spaces (s @ r) = skip_spaces (s' @ r)" by (subst skip_spaces.simps) simp
    with ih show ?thesis by simp
  qed
qed

lemma match_here_guid:
  "skip_spaces ws = [] \<Longrightarrow> strip_space tok = None \<Longrightarrow>
   match_here (''guid:'' @ ws @ tok) =
     (if takeWhile is_hex tok = [] then None else Some (takeWhile is_hex tok))"
  by (simp add: match_here_def startswith_def skip_spaces_append skip_spaces_fix)

lemma match_here_nonempty: "match_here s = Some tok \<Longrightarrow> tok \<noteq> [] \<and> (\<forall>c \<in> set tok. is_hex c)"
  by (auto simp: match_here_def Let_def split: if_splits dest: set_takeWhileD)

lemma re_search_skip:
  "(\<forall>i < length pre. match_here (drop i (pre @ s)) = None) \<Longrightarrow> re_search (pre @ s) = re_search s"
proof (induction pre)
  case Nil
  then show ?case by simp
next
  case (Cons a pre)
  from Cons.prems have h0: "match_here ((a # pre) @ s) = None" by force
  have "\<forall>i < length pre. match_here (drop i (pre @ s)) = None"
  proof (intro allI impI)
    fix i assume "i < length pre"
    then have "Suc i < length (a # pre)" by simp
    with Cons.prems have "match_here (drop (Suc i) ((a # pre) @ s)) = None" by blast
    then show "match_here (drop i (pre @ s)) = None" by simp
  qed
  with Cons.IH have "re_search (pre @ s) = re_search s" by blast
  with h0 show ?case by simp
qed

lemma re_search_None_iff:
  "re_search s = None \<longleftrightarrow> (\<forall>i \<le> length s. match_here (drop i s) = None)"
proof (induction s)
  case Nil
  then show ?case by simp
next
  case (Cons a s)
  show ?case
  proof
    assume n: "re_search (a # s) = None"
    then have h0: "match_here (a # s) = None" and r: "re_search s = None"
      by (auto split: option.splits)
    with Cons.IH have ih: "\<forall>i \<le> length s. match_here (drop i s) = None" by simp
    show "\<forall>i \<le> length (a # s). match_here (drop i (a # s)) = None"
    proof (intro allI impI)
      fix i assume "i \<le> length (a # s)"
      then show "match_here (drop i (a # s)) = None"
        using h0 ih by (cases i) auto
    qed
  next
    assume a: "\<forall>i \<le> length (a # s). match_here (drop i (a # s)) = None"
    then have h0: "match_here (a # s) = None" by force
    have "\<forall>i \<le> length s. match_here (drop i s) = None"
    proof (intro allI impI)
      fix i assume "i \<le> length s"
      then have "Suc i \<le> length (a # s)" by simp
      with a have "match_here (drop (Suc i) (a # s)) = None" by blast
      then show "match_here (drop i s) = None" by simp
    qed
    with Cons.IH have "re_search s = None" by simp
    with h0 show "re_search (a # s) = None" by simp
  qed
qed

lemma re_search_first:
  "i \<le> length s \<Longrightarrow> match_here (drop i s) = Some tok \<Longrightarrow>
   (\<forall>j < i. match_here (drop j s) = None) \<Longrightarrow> re_search s = Some tok"
proof -
  assume i: "i \<le> length s" and m: "match_here (drop i s) = Some tok"
    and f: "\<forall>j < i. match_here (drop j s) = None"
  have li: "length (take i s) = i" using i by simp
  have "re_search (take i s @ drop i s) = re_search (drop i s)"
    by (rule re_search_skip) (use f li in simp)
  moreover have "re_search (drop i s) = Some tok" using m by (cases "drop i s") auto
  ultimately show ?thesis by simp
qed

lemma re_search_nonempty: "re_search s = Some tok \<Longrightarrow> tok \<noteq> [] \<and> (\<forall>c \<in> set tok. is_hex c)"
  by (induction s) (auto split: option.splits dest: match_here_nonempty)

section \<open>The identifier extractor\<close>

text \<open>
  Claim C7, as the code has it. \<open>extract_guid\<close> never raises: when the file cannot be read
  as text it prints the error and returns \<open>None\<close>; when the text has no position at which
  \<open>guid:\<close>, any white space (none will do) and a non-empty run of \<open>[a-f0-9]\<close> follow one
  another, it returns \<open>None\<close> and prints nothing; otherwise it returns the run found at the
  first such position.
\<close>

theorem extract_guid_first_match:
  "(read_text fs p = Inl e \<longrightarrow> extract_guid fs p = (None, [ErrorReading p e])) \<and>
   (read_text fs p = Inr c \<and> (\<forall>i \<le> length c. match_here (drop i c) = None) \<longrightarrow>
      extract_guid fs p = (None, [])) \<and>
   (read_text fs p = Inr c \<and> i \<le> length c \<and> match_here (drop i c) = Some tok \<and>
      (\<forall>j < i. match_here (drop j c) = None) \<longrightarrow>
      extract_guid fs p = (Some tok, []))"
proof (intro conjI impI)
  assume "read_text fs p = Inl e"
  then show "extract_guid fs p = (None, [ErrorReading p e])"
    by (simp add: extract_guid_def extract_guid_body_def)
next
  assume a: "read_text fs p = Inr c \<and> (\<forall>i \<le> length c. match_here (drop i c) = None)"
  then have "re_search c = None" by (simp add: re_search_None_iff)
  with a show "extract_guid fs p = (None, [])"
    by (simp add: extract_guid_def extract_guid_body_def)
next
  assume a: "read_text fs p = Inr c \<and> i \<le> length c \<and> match_here (drop i c) = Some tok \<and>
      (\<forall>j < i. match_here (drop j c) = None)"
  then have "re_search c = Some tok" using re_search_first by blast
  with a show "extract_guid fs p = (Some tok, [])"
    by (simp add: extract_guid_def extract_guid_body_def)
qed

text \<open>
  The three cases at work: \<open>c.meta\<close> cannot be read, \<open>b.meta\<close> has no match, \<open>a.meta\<close> has
  one at its first character.
\<close>

theorem extract_guid_first_match_witness:
  "read_text fs_guids ''c.meta'' = Inl PermissionError \<and>
   extract_guid fs_guids ''c.meta'' = (None, [ErrorReading ''c.meta'' PermissionError]) \<and>
   read_text fs_guids ''b.meta'' = Inr ''fileFormatVersion: 2'' \<and>
   re_search ''fileFormatVersion: 2'' = None \<and>
   extract_guid fs_guids ''b.meta'' = (None, []) \<and>
   read_text fs_guids ''a.meta'' = Inr ''guid:ab'' \<and>
   match_here (drop 0 ''guid:ab'') = Some ''ab'' \<and>
   extract_guid fs_guids ''a.meta'' = (Some ''ab'', [])"
proof -
  have r1: "read_text fs_guids ''c.meta'' = Inl PermissionError" by code_simp
  have r2: "read_text fs_guids ''b.meta'' = Inr ''fileFormatVersion: 2''" by code_simp
  have n2: "re_search ''fileFormatVersion: 2'' = None" by code_simp
  then have h2: "\<forall>i \<le> length ''fileFormatVersion: 2''.
      match_here (drop i ''fileFormatVersion: 2'') = None"
    by (simp only: re_search_None_iff)
  have r3: "read_text fs_guids ''a.meta'' = Inr ''guid:ab''" by code_simp
  have m3: "match_here (drop 0 ''guid:ab'') = Some ''ab''" by code_simp
  have e1: "extract_guid fs_guids ''c.meta'' = (None, [ErrorReading ''c.meta'' PermissionError])"
    using extract_guid_first_match [of fs_guids "''c.meta''" PermissionError] r1 by blast
  have e2: "extract_guid fs_guids ''b.meta'' = (None, [])"
    using extract_guid_first_match [of fs_guids "''b.meta''" _ "''fileFormatVersion: 2''"] r2 h2
    by blast
  have e3: "extract_guid fs_guids ''a.meta'' = (Some ''ab'', [])"
    using extract_guid_first_match [of fs_guids "''a.meta''" _ "''guid:ab''" 0 "''ab''"] r3 m3
    by simp
  from r1 r2 n2 r3 m3 e1 e2 e3 show ?thesis by blast
qed

text \<open>
  Claim C7 as it is worded fails on \<open>guid:ab\<close>: the text is readable and has no \<open>guid:\<close>
  followed by white space and a token, yet the extractor returns \<open>ab\<close>.
\<close>

theorem extract_guid_stated_counterexample:
  "read_text fs_guids ''a.meta'' = Inr ''guid:ab'' \<and> stated_search ''guid:ab'' = None \<and>
   extract_guid fs_guids ''a.meta'' = (Some ''ab'', [])"
  by code_simp

section \<open>Truncated identifiers\<close>

lemma unmatched_prefix_all:
  "unmatched_prefix pre s \<Longrightarrow> i < length pre \<Longrightarrow> match_here (drop i (pre @ s)) = None"
proof (induction pre arbitrary: i)
  case Nil
  then show ?case by simp
next
  case (Cons c pre)
  then show ?case by (cases i) auto
qed

text \<open>
  Claim C9, as the code has it: the occurrence has to be the first match of the pattern, or
  the only candidate. Let the text of a metadata file read \<open>pre\<close>, then \<open>guid:\<close>, then white
  space \<open>ws\<close> (possibly none), then \<open>tok\<close>. If \<open>tok\<close> begins with a character of \<open>[a-f0-9]\<close>
  and no match starts inside \<open>pre\<close>, the extractor returns the longest prefix of \<open>tok\<close> in
  \<open>[a-f0-9]\<close>, whatever follows it, and prints nothing. If \<open>tok\<close> begins with any other
  character (not white space) and no other position of the text matches, it returns \<open>None\<close>.
\<close>

theorem extract_guid_hex_prefix:
  assumes "read_text fs p = Inr (pre @ ''guid:'' @ ws @ tok)"
    and "skip_spaces ws = []"
  shows "(tok \<noteq> [] \<and> is_hex (hd tok) \<and>
          (\<forall>i < length pre. match_here (drop i (pre @ ''guid:'' @ ws @ tok)) = None) \<longrightarrow>
            extract_guid fs p = (Some (takeWhile is_hex tok), [])) \<and>
         (tok \<noteq> [] \<and> \<not> is_hex (hd tok) \<and> strip_space tok = None \<and>
          (\<forall>i \<le> length (pre @ ''guid:'' @ ws @ tok). i \<noteq> length pre \<longrightarrow>
               match_here (drop i (pre @ ''guid:'' @ ws @ tok)) = None) \<longrightarrow>
            extract_guid fs p = (None, []))"
proof (intro conjI impI)
  let ?c = "pre @ ''guid:'' @ ws @ tok"
  assume a: "tok \<noteq> [] \<and> is_hex (hd tok) \<and> (\<forall>i < length pre. match_here (drop i ?c) = None)"
  then obtain h r where tok: "tok = h # r" and h: "is_hex h" by (cases tok) auto
  have ss: "strip_space tok = None" using tok h by (simp add: strip_space_hex)
  have tw: "takeWhile is_hex tok \<noteq> []" using tok h by simp
  have "match_here (''guid:'' @ ws @ tok) = Some (takeWhile is_hex tok)"
    using match_here_guid [OF assms(2) ss] tw by simp
  then have "re_search (''guid:'' @ ws @ tok) = Some (takeWhile is_hex tok)" by simp
  moreover have "re_search ?c = re_search (''guid:'' @ ws @ tok)"
    using a by (intro re_search_skip) blast
  ultimately have "re_search ?c = Some (takeWhile is_hex tok)" by simp
  with assms(1) show "extract_guid fs p = (Some (takeWhile is_hex tok), [])"
    by (simp add: extract_guid_def extract_guid_body_def)
next
  let ?c = "pre @ ''guid:'' @ ws @ tok"
  assume a: "tok \<noteq> [] \<and> \<not> is_hex (hd tok) \<and> strip_space tok = None \<and>
    (\<forall>i \<le> length ?c. i \<noteq> length pre \<longrightarrow> match_here (drop i ?c) = None)"
  then obtain h r where tok: "tok = h # r" and h: "\<not> is_hex h" by (cases tok) auto
  have tw: "takeWhile is_hex tok = []" using tok h by simp
  have here: "match_here (''guid:'' @ ws @ tok) = None"
    using match_here_guid [OF assms(2), of tok] a tw by simp
  have "\<forall>i \<le> length ?c. match_here (drop i ?c) = None"
  proof (intro allI impI)
    fix i assume "i \<le> length ?c"
    show "match_here (drop i ?c) = None"
    proof (cases "i = length pre")
      case True
      then show ?thesis using here by simp
    next
      case False
      with a \<open>i \<le> length ?c\<close> show ?thesis by blast
    qed
  qed
  then have "re_search ?c = None" by (simp only: re_search_None_iff)
  with assms(1) show "extract_guid fs p = (None, [])"
    by (simp add: extract_guid_def extract_guid_body_def)
qed

text \<open>
  \<open>0f9Aab\<close> is cut down to \<open>0f9\<close>, after an earlier \<open>guid: Z\<close> that does not match; \<open>XYZ\<close>
  gives nothing.
\<close>

theorem extract_guid_hex_prefix_witness:
  "read_text fs_tokens ''d.meta'' = Inr (''x guid: Z'' @ ''guid:'' @ ''  '' @ ''0f9Aab'') \<and>
   skip_spaces ''  '' = [] \<and> is_hex (hd ''0f9Aab'') \<and> unmatched_prefix ''x guid: Z'' ''guid:  0f9Aab'' \<and>
   extract_guid fs_tokens ''d.meta'' = (Some ''0f9'', []) \<and>
   read_text fs_tokens ''e.meta'' = Inr ([] @ ''guid:'' @ '' '' @ ''XYZ'') \<and>
   skip_spaces '' '' = [] \<and> \<not> is_hex (hd ''XYZ'') \<and> strip_space ''XYZ'' = None \<and>
   re_search ''uid: XYZ'' = None \<and>
   extract_guid fs_tokens ''e.meta'' = (None, [])"
proof -
  have r1: "read_text fs_tokens ''d.meta'' = Inr (''x guid: Z'' @ ''guid:'' @ ''  '' @ ''0f9Aab'')"
    by code_simp
  have s1: "skip_spaces ''  '' = []" by code_simp
  have x1: "is_hex (hd ''0f9Aab'')" by code_simp
  have u1: "unmatched_prefix ''x guid: Z'' ''guid:  0f9Aab''" by code_simp
  have t1: "takeWhile is_hex ''0f9Aab'' = ''0f9''" by code_simp
  have p1: "\<forall>i < length ''x guid: Z''.
      match_here (drop i (''x guid: Z'' @ ''guid:'' @ ''  '' @ ''0f9Aab'')) = None"
    using unmatched_prefix_all [OF u1] by simp
  have e1: "extract_guid fs_tokens ''d.meta'' = (Some ''0f9'', [])"
    using extract_guid_hex_prefix [OF r1 s1] x1 p1 t1 by simp
  have r2: "read_text fs_tokens ''e.meta'' = Inr ([] @ ''guid:'' @ '' '' @ ''XYZ'')" by code_simp
  have s2: "skip_spaces '' '' = []" by code_simp
  have x2: "\<not> is_hex (hd ''XYZ'')" by code_simp
  have y2: "strip_space ''XYZ'' = None" by code_simp
  have n2: "re_search ''uid: XYZ'' = None" by code_simp
  have p2: "\<forall>i \<le> length ([] @ ''guid:'' @ '' '' @ ''XYZ''). i \<noteq> length ([] :: string) \<longrightarrow>
      match_here (drop i ([] @ ''guid:'' @ '' '' @ ''XYZ'')) = None"
  proof (intro allI impI)
    fix i :: nat
    assume i: "i \<le> length ([] @ ''guid:'' @ '' '' @ ''XYZ'')" and nz: "i \<noteq> length ([] :: string)"
    then obtain k where k: "i = Suc k" by (cases i) auto
    with i have "k \<le> length ''uid: XYZ''" by simp
    with n2 have "match_here (drop k ''uid: XYZ'') = None" by (simp only: re_search_None_iff)
    with k show "match_here (drop i ([] @ ''guid:'' @ '' '' @ ''XYZ'')) = None" by simp
  qed
  have e2: "extract_guid fs_tokens ''e.meta'' = (None, [])"
    using extract_guid_hex_prefix [OF r2 s2] x2 y2 p2 by simp
  from r1 s1 x1 u1 e1 r2 s2 x2 y2 n2 e2 show ?thesis by blast
qed

text \<open>
  Claim C9 as it is worded, for every occurrence of \<open>guid:\<close> with a token, fails where an
  earlier or a later position matches: in \<open>guid: ab guid: cd\<close> the token \<open>cd\<close> is all
  \<open>[a-f0-9]\<close>, yet \<open>ab\<close> is returned; in \<open>guid: XYZ guid: ab\<close> the first token begins with
  \<open>X\<close>, yet the extractor returns \<open>ab\<close> and not \<open>None\<close>.
\<close>

theorem extract_guid_later_match_counterexample:
  "read_text fs_later ''m.meta'' = Inr (''guid: ab '' @ ''guid:'' @ '' '' @ ''cd'') \<and>
   skip_spaces '' '' = [] \<and> is_hex (hd ''cd'') \<and> takeWhile is_hex ''cd'' = ''cd'' \<and>
   extract_guid fs_later ''m.meta'' = (Some ''ab'', []) \<and>
   read_text fs_later ''n.meta'' = Inr ([] @ ''guid:'' @ '' '' @ ''XYZ guid: ab'') \<and>
   \<not> is_hex (hd ''XYZ guid: ab'') \<and> strip_space ''XYZ guid: ab'' = None \<and>
   extract_guid fs_later ''n.meta'' = (Some ''ab'', [])"
  by code_simp

section \<open>What the enumerator yields\<close>

text \<open>
  Every record of the sequence is the folder record or the file record of a path whose
  sidecar exists, and the path of a file record is never empty.
\<close>

lemma join_nonempty: "a \<noteq> [] \<Longrightarrow> os_path_join a b \<noteq> []"
  by (auto simp: os_path_join_def)

lemma walk_roots_nonempty:
  "tp \<noteq> [] \<Longrightarrow> \<forall>w \<in> set (os_walk_node tp t). fst w \<noteq> []"
  "tp \<noteq> [] \<Longrightarrow> \<forall>w \<in> set (os_walk_subdirs tp es). fst w \<noteq> []"
proof (induction tp t and tp es rule: os_walk_node_os_walk_subdirs.induct)
  case (1 tp r c)
  then show ?case by simp
next
  case (2 tp es)
  then show ?case by simp
next
  case (3 tp)
  then show ?case by simp
next
  case (4 tp n t es)
  then show ?case using join_nonempty by auto
qed

lemma os_walk_roots_nonempty: "w \<in> set (os_walk fs tp) \<Longrightarrow> fst w \<noteq> []"
proof -
  assume w: "w \<in> set (os_walk fs tp)"
  show ?thesis
  proof (cases "resolve fs tp")
    case None
    with w show ?thesis by (simp add: os_walk_def)
  next
    case (Some t)
    then have ne: "tp \<noteq> []" by (auto simp: resolve_def)
    from w Some have "w \<in> set (os_walk_node tp t)"
      by (cases t) (simp_all add: os_walk_def)
    with ne show ?thesis using walk_roots_nonempty(1) by blast
  qed
qed

lemma file_assets_shape:
  "a \<in> set (file_assets fs root files) \<Longrightarrow>
   \<exists>file \<in> set files. \<not> endswith file ''.meta'' \<and> a = file_record (os_path_join root file) \<and>
      os_path_exists fs (os_path_join root file @ ''.meta'')"
  by (auto simp: file_assets_def Let_def split: if_splits)

lemma visit_shape:
  "a \<in> set (visit fs (root, dirs, files)) \<Longrightarrow>
   (a = folder_record root \<and> os_path_exists fs (root @ ''.meta'')) \<or>
   (\<exists>file \<in> set files. \<not> endswith file ''.meta'' \<and> a = file_record (os_path_join root file) \<and>
      os_path_exists fs (os_path_join root file @ ''.meta''))"
  by (auto simp: visit_def split: if_splits dest: file_assets_shape)

lemma get_all_assets_shape:
  assumes "a \<in> set (get_all_assets fs base_path)"
  shows "(\<exists>p. a = folder_record p \<and> os_path_exists fs (p @ ''.meta'')) \<or>
         (\<exists>p. p \<noteq> [] \<and> a = file_record p \<and> os_path_exists fs (p @ ''.meta''))"
proof -
  from assms have "(a = folder_record base_path \<and> os_path_exists fs (base_path @ ''.meta'')) \<or>
      a \<in> set (walk_assets fs base_path)"
    by (auto simp: get_all_assets_def Let_def split: if_splits)
  then show ?thesis
  proof
    assume "a = folder_record base_path \<and> os_path_exists fs (base_path @ ''.meta'')"
    then show ?thesis by blast
  next
    assume "a \<in> set (walk_assets fs base_path)"
    then obtain root dirs files where
      w: "(root, dirs, files) \<in> set (os_walk fs base_path)" and
      v: "a \<in> set (visit fs (root, dirs, files))"
      by (auto simp: walk_assets_def)
    from os_walk_roots_nonempty [OF w] have rn: "root \<noteq> []" by simp
    from visit_shape [OF v] show ?thesis
    proof
      assume "a = folder_record root \<and> os_path_exists fs (root @ ''.meta'')"
      then show ?thesis by blast
    next
      assume "\<exists>file \<in> set files. \<not> endswith file ''.meta'' \<and>
          a = file_record (os_path_join root file) \<and>
          os_path_exists fs (os_path_join root file @ ''.meta'')"
      then obtain fname where "a = file_record (os_path_join root fname)"
        "os_path_exists fs (os_path_join root fname @ ''.meta'')" by blast
      moreover have "os_path_join root fname \<noteq> []" using rn by (rule join_nonempty)
      ultimately show ?thesis by blast
    qed
  qed
qed

section \<open>The enumerator\<close>

lemma wf_entries_iff:
  "wf_entries es \<longleftrightarrow> (\<forall>e \<in> set es. fst e \<noteq> [] \<and> CHR ''/'' \<notin> set (fst e) \<and> wf_node (snd e))"
  by (induction es) auto

lemma join_wf: "n \<noteq> [] \<Longrightarrow> CHR ''/'' \<notin> set n \<Longrightarrow> os_path_join tp n = dir_prefix tp @ n"
  by (cases n) (auto simp: os_path_join_def dir_prefix_def)

lemma dir_prefix_join:
  "n \<noteq> [] \<Longrightarrow> CHR ''/'' \<notin> set n \<Longrightarrow> dir_prefix (dir_prefix tp @ n) = dir_prefix tp @ n @ ''/''"
proof -
  assume n: "n \<noteq> []" and s: "CHR ''/'' \<notin> set n"
  then have "last n \<noteq> CHR ''/''" using last_in_set by metis
  with n show ?thesis by (simp add: dir_prefix_def os_path_join_def)
qed

lemma length_dir_prefix: "length tp \<le> length (dir_prefix tp)"
  by (simp add: dir_prefix_def os_path_join_def)

lemma first_name:
  "CHR ''/'' \<notin> set n \<Longrightarrow> rest = [] \<or> hd rest = CHR ''/'' \<Longrightarrow>
   takeWhile (\<lambda>c. c \<noteq> CHR ''/'') (n @ rest) = n"
proof -
  assume n: "CHR ''/'' \<notin> set n" and r: "rest = [] \<or> hd rest = CHR ''/''"
  have "takeWhile (\<lambda>c. c \<noteq> CHR ''/'') (n @ rest) = n @ takeWhile (\<lambda>c. c \<noteq> CHR ''/'') rest"
    using n by (intro takeWhile_append2) auto
  moreover have "takeWhile (\<lambda>c. c \<noteq> CHR ''/'') rest = []"
    using r by (cases rest) auto
  ultimately show ?thesis by simp
qed

lemma src_folder [simp]: "src (folder_record p) = p"
  by (simp add: src_def folder_record_def)

lemma src_file [simp]: "src (file_record p) = p"
  by (simp add: src_def file_record_def)

lemma folder_not_file [simp]: "folder_record p \<noteq> file_record q"
  by (simp add: folder_record_def file_record_def)

lemma endswith_iff: "endswith s suf \<longleftrightarrow> (\<exists>pre. s = pre @ suf)"
proof
  assume "endswith s suf"
  then have "s = take (length s - length suf) s @ suf"
    by (metis append_take_drop_id endswith_def)
  then show "\<exists>pre. s = pre @ suf" ..
next
  assume "\<exists>pre. s = pre @ suf"
  then show "endswith s suf" by (auto simp: endswith_def)
qed

lemma endswith_join:
  assumes "tp \<noteq> []" and "n \<noteq> []" and "CHR ''/'' \<notin> set n"
  shows "endswith (os_path_join tp n) ''.meta'' \<longleftrightarrow> endswith n ''.meta''"
proof
  assume "endswith n ''.meta''"
  then obtain pre where "n = pre @ ''.meta''" by (auto simp: endswith_iff)
  then have "os_path_join tp n = (dir_prefix tp @ pre) @ ''.meta''"
    using assms by (simp add: join_wf)
  then show "endswith (os_path_join tp n) ''.meta''" unfolding endswith_iff by blast
next
  assume "endswith (os_path_join tp n) ''.meta''"
  then obtain pre where e: "dir_prefix tp @ n = pre @ ''.meta''"
    using assms by (auto simp: endswith_iff join_wf)
  have dp: "dir_prefix tp \<noteq> []" "last (dir_prefix tp) = CHR ''/''"
    using assms(1) by (auto simp: dir_prefix_def os_path_join_def)
  from e obtain us where
    "(dir_prefix tp = pre @ us \<and> us @ n = ''.meta'') \<or> (dir_prefix tp @ us = pre \<and> n = us @ ''.meta'')"
    unfolding append_eq_append_conv2 by blast
  then show "endswith n ''.meta''"
  proof
    assume a: "dir_prefix tp = pre @ us \<and> us @ n = ''.meta''"
    show ?thesis
    proof (cases "us = []")
      case True
      with a show ?thesis by (simp add: endswith_iff)
    next
      case False
      with a dp have "last us = CHR ''/''" by simp
      with False have "CHR ''/'' \<in> set us" using last_in_set by metis
      then have "CHR ''/'' \<in> set (us @ n)" by simp
      with a show ?thesis by simp
    qed
  next
    assume "dir_prefix tp @ us = pre \<and> n = us @ ''.meta''"
    then show ?thesis unfolding endswith_iff by blast
  qed
qed

lemma below_self: "below B n (B @ n)"
  by (simp add: below_def)

lemma below_unique:
  assumes "CHR ''/'' \<notin> set n" and "CHR ''/'' \<notin> set n'" and "below B n p" and "below B n' p"
  shows "n = n'"
proof -
  from assms(3) obtain r where r: "p = B @ n @ r" "r = [] \<or> hd r = CHR ''/''"
    by (auto simp: below_def)
  from assms(4) obtain r' where r': "p = B @ n' @ r'" "r' = [] \<or> hd r' = CHR ''/''"
    by (auto simp: below_def)
  from r(1) r'(1) have "n @ r = n' @ r'" by simp
  then have "takeWhile (\<lambda>c. c \<noteq> CHR ''/'') (n @ r) = takeWhile (\<lambda>c. c \<noteq> CHR ''/'') (n' @ r')"
    by simp
  then show ?thesis
    using first_name [OF assms(1) r(2)] first_name [OF assms(2) r'(2)] by simp
qed

lemma below_longer: "n \<noteq> [] \<Longrightarrow> below (dir_prefix tp) n p \<Longrightarrow> p \<noteq> tp"
proof
  assume n: "n \<noteq> []" and b: "below (dir_prefix tp) n p" and e: "p = tp"
  from b obtain r where "p = dir_prefix tp @ n @ r" by (auto simp: below_def)
  then have "length p \<ge> length (dir_prefix tp) + length n" by simp
  moreover from n have "length n > 0" by simp
  ultimately have "length p > length tp" using length_dir_prefix [of tp] by linarith
  with e show False by simp
qed

lemma below_step:
  assumes "n \<noteq> []" and "CHR ''/'' \<notin> set n"
    and "below (dir_prefix (dir_prefix tp @ n)) n' p"
  shows "below (dir_prefix tp) n p"
proof -
  from assms(3) obtain r where "p = dir_prefix (dir_prefix tp @ n) @ n' @ r"
    by (auto simp: below_def)
  then have "p = dir_prefix tp @ n @ (''/'' @ n' @ r)"
    using dir_prefix_join [OF assms(1,2)] by simp
  then show ?thesis unfolding below_def by (intro exI [of _ "''/'' @ n' @ r"]) simp
qed

lemma dir_names_Cons:
  "dir_names ((n, t) # es) = (if is_dir_node t then n # dir_names es else dir_names es)"
  by (simp add: dir_names_def)

lemma dir_names_subset: "set (dir_names es) \<subseteq> fst ` set es"
  by (auto simp: dir_names_def)

lemma file_names_subset: "set (file_names es) \<subseteq> fst ` set es"
  by (auto simp: file_names_def)

lemma names_disjoint:
  "distinct (map fst es) \<Longrightarrow> n \<in> set (dir_names es) \<Longrightarrow> n \<in> set (file_names es) \<Longrightarrow> False"
proof -
  assume d: "distinct (map fst es)" and a: "n \<in> set (dir_names es)" and b: "n \<in> set (file_names es)"
  from a obtain t where t: "(n, t) \<in> set es" "is_dir_node t" by (auto simp: dir_names_def)
  from b obtain t' where t': "(n, t') \<in> set es" "\<not> is_dir_node t'" by (auto simp: file_names_def)
  from d t(1) t'(1) have "t = t'" by (meson eq_key_imp_eq_value)
  with t(2) t'(2) show False by simp
qed

lemma distinct_file_names: "distinct (map fst es) \<Longrightarrow> distinct (file_names es)"
  by (simp add: file_names_def distinct_map_filter)

lemma wf_name: "wf_entries es \<Longrightarrow> n \<in> fst ` set es \<Longrightarrow> n \<noteq> [] \<and> CHR ''/'' \<notin> set n"
  by (auto simp: wf_entries_iff)

lemma assets_of_Cons: "assets_of fs (w # ws) = visit fs w @ assets_of fs ws"
  by (simp add: assets_of_def)

lemma assets_of_append: "assets_of fs (ws @ ws') = assets_of fs ws @ assets_of fs ws'"
  by (simp add: assets_of_def)

lemma assets_of_Nil: "assets_of fs [] = []"
  by (simp add: assets_of_def)

lemma distinct_file_assets:
  assumes "distinct files" and "\<forall>f \<in> set files. f \<noteq> [] \<and> CHR ''/'' \<notin> set f"
  shows "distinct (file_assets fs root files)"
  using assms
proof (induction files)
  case Nil
  then show ?case by (simp add: file_assets_def)
next
  case (Cons f files)
  have step: "file_assets fs root (f # files) =
      (if endswith f ''.meta'' then []
       else if os_path_exists fs (os_path_join root f @ ''.meta'')
            then [file_record (os_path_join root f)] else []) @ file_assets fs root files"
    by (simp add: file_assets_def Let_def)
  from Cons have ih: "distinct (file_assets fs root files)" by simp
  have "file_record (os_path_join root f) \<notin> set (file_assets fs root files)"
  proof
    assume "file_record (os_path_join root f) \<in> set (file_assets fs root files)"
    from file_assets_shape [OF this] obtain f' where
      f': "f' \<in> set files" "file_record (os_path_join root f) = file_record (os_path_join root f')"
      by blast
    from f'(2) have "os_path_join root f = os_path_join root f'"
      by (simp add: file_record_def)
    moreover from Cons.prems f'(1) have "os_path_join root f = dir_prefix root @ f"
      "os_path_join root f' = dir_prefix root @ f'" by (simp_all add: join_wf)
    ultimately have "f = f'" by simp
    with Cons.prems(1) f'(1) show False by simp
  qed
  with ih show ?case unfolding step by simp
qed

lemma distinct_visit:
  assumes "distinct files" and "\<forall>f \<in> set files. f \<noteq> [] \<and> CHR ''/'' \<notin> set f"
  shows "distinct (visit fs (root, dirs, files))"
proof -
  have "folder_record root \<notin> set (file_assets fs root files)"
    using file_assets_shape [of "folder_record root" fs root files] by auto
  with distinct_file_assets [OF assms] show ?thesis by (simp add: visit_def)
qed

lemma visit_src:
  assumes "a \<in> set (visit fs (root, dirs, files))"
    and "\<forall>f \<in> set files. f \<noteq> [] \<and> CHR ''/'' \<notin> set f"
  shows "a = folder_record root \<or>
         (\<exists>f \<in> set files. a = file_record (dir_prefix root @ f))"
proof -
  from visit_shape [OF assms(1)] show ?thesis
  proof
    assume "a = folder_record root \<and> os_path_exists fs (root @ ''.meta'')"
    then show ?thesis by simp
  next
    assume "\<exists>f \<in> set files. \<not> endswith f ''.meta'' \<and> a = file_record (os_path_join root f) \<and>
      os_path_exists fs (os_path_join root f @ ''.meta'')"
    then obtain f where f: "f \<in> set files" "a = file_record (os_path_join root f)" by blast
    with assms(2) have "a = file_record (dir_prefix root @ f)" by (simp add: join_wf)
    with f(1) show ?thesis by blast
  qed
qed

lemma walk_sources:
  "wf_node t \<Longrightarrow>
     distinct (assets_of fs (os_walk_node tp t)) \<and>
     (\<forall>a \<in> set (assets_of fs (os_walk_node tp t)).
        src a = tp \<or> (\<exists>n. n \<noteq> [] \<and> CHR ''/'' \<notin> set n \<and> below (dir_prefix tp) n (src a)))"
  "distinct (map fst es) \<Longrightarrow> wf_entries es \<Longrightarrow>
     distinct (assets_of fs (os_walk_subdirs tp es)) \<and>
     (\<forall>a \<in> set (assets_of fs (os_walk_subdirs tp es)).
        \<exists>n \<in> set (dir_names es). below (dir_prefix tp) n (src a))"
proof (induction tp t and tp es rule: os_walk_node_os_walk_subdirs.induct)
  case (1 tp r c)
  then show ?case by (simp add: assets_of_Nil)
next
  case (2 tp es)
  then have d: "distinct (map fst es)" and w: "wf_entries es" by simp_all
  from "2.IH" [OF d w] have
    sub_d: "distinct (assets_of fs (os_walk_subdirs tp es))" and
    sub_s: "\<forall>a \<in> set (assets_of fs (os_walk_subdirs tp es)).
        \<exists>n \<in> set (dir_names es). below (dir_prefix tp) n (src a)"
    by simp_all
  let ?v = "visit fs (tp, dir_names es, file_names es)"
  have fw: "\<forall>f \<in> set (file_names es). f \<noteq> [] \<and> CHR ''/'' \<notin> set f"
    using wf_name [OF w] file_names_subset [of es] by blast
  have dw: "\<forall>n \<in> set (dir_names es). n \<noteq> [] \<and> CHR ''/'' \<notin> set n"
    using wf_name [OF w] dir_names_subset [of es] by blast
  have v_d: "distinct ?v" using distinct_visit [OF distinct_file_names [OF d] fw] .
  have v_s: "\<forall>a \<in> set ?v. a = folder_record tp \<or>
      (\<exists>f \<in> set (file_names es). a = file_record (dir_prefix tp @ f))"
    using visit_src [OF _ fw] by blast
  have disj: "set ?v \<inter> set (assets_of fs (os_walk_subdirs tp es)) = {}"
  proof (rule ccontr)
    assume "set ?v \<inter> set (assets_of fs (os_walk_subdirs tp es)) \<noteq> {}"
    then obtain a where av: "a \<in> set ?v" and asub: "a \<in> set (assets_of fs (os_walk_subdirs tp es))"
      by blast
    from sub_s asub obtain n where n: "n \<in> set (dir_names es)" "below (dir_prefix tp) n (src a)"
      by blast
    from dw n(1) have nw: "n \<noteq> []" "CHR ''/'' \<notin> set n" by simp_all
    from v_s av have "a = folder_record tp \<or>
        (\<exists>f \<in> set (file_names es). a = file_record (dir_prefix tp @ f))" by blast
    then show False
    proof
      assume "a = folder_record tp"
      then have "src a = tp" by simp
      with below_longer [OF nw(1) n(2)] show False by simp
    next
      assume "\<exists>f \<in> set (file_names es). a = file_record (dir_prefix tp @ f)"
      then obtain f where f: "f \<in> set (file_names es)" "a = file_record (dir_prefix tp @ f)" by blast
      then have "below (dir_prefix tp) f (src a)" by (simp add: below_self)
      with below_unique [OF _ nw(2) _ n(2)] fw f(1) have "f = n" by blast
      with names_disjoint [OF d n(1)] f(1) show False by simp
    qed
  qed
  have all_s: "\<forall>a \<in> set (?v @ assets_of fs (os_walk_subdirs tp es)).
      src a = tp \<or> (\<exists>n. n \<noteq> [] \<and> CHR ''/'' \<notin> set n \<and> below (dir_prefix tp) n (src a))"
  proof
    fix a assume "a \<in> set (?v @ assets_of fs (os_walk_subdirs tp es))"
    then consider "a \<in> set ?v" | "a \<in> set (assets_of fs (os_walk_subdirs tp es))" by auto
    then show "src a = tp \<or> (\<exists>n. n \<noteq> [] \<and> CHR ''/'' \<notin> set n \<and> below (dir_prefix tp) n (src a))"
    proof cases
      case 1
      with v_s have "a = folder_record tp \<or>
        (\<exists>f \<in> set (file_names es). a = file_record (dir_prefix tp @ f))" by blast
      then show ?thesis
      proof
        assume "a = folder_record tp"
        then show ?thesis by simp
      next
        assume "\<exists>f \<in> set (file_names es). a = file_record (dir_prefix tp @ f)"
        then obtain f where f: "f \<in> set (file_names es)" "a = file_record (dir_prefix tp @ f)"
          by blast
        then have "below (dir_prefix tp) f (src a)" by (simp add: below_self)
        with fw f(1) show ?thesis by blast
      qed
    next
      case 2
      with sub_s obtain n where "n \<in> set (dir_names es)" "below (dir_prefix tp) n (src a)" by blast
      with dw show ?thesis by blast
    qed
  qed
  have "assets_of fs (os_walk_node tp (Dir es)) = ?v @ assets_of fs (os_walk_subdirs tp es)"
    by (simp add: assets_of_Cons)
  with v_d sub_d disj all_s show ?case by simp
next
  case (3 tp)
  then show ?case by (simp add: assets_of_Nil)
next
  case (4 tp n t es)
  from "4.prems" have d: "distinct (map fst es)" and nn: "n \<notin> fst ` set es"
    and nw: "n \<noteq> []" "CHR ''/'' \<notin> set n" and wt: "wf_node t" and w: "wf_entries es"
    by auto
  let ?first = "assets_of fs (os_walk_node (os_path_join tp n) t)"
  let ?second = "assets_of fs (os_walk_subdirs tp es)"
  have j: "os_path_join tp n = dir_prefix tp @ n" using nw by (rule join_wf)
  from "4.IH"(1) [OF wt] have
    f_d: "distinct ?first" and
    f_s: "\<forall>a \<in> set ?first. src a = os_path_join tp n \<or>
        (\<exists>n'. n' \<noteq> [] \<and> CHR ''/'' \<notin> set n' \<and> below (dir_prefix (os_path_join tp n)) n' (src a))"
    by simp_all
  from "4.IH"(2) [OF d w] have
    s_d: "distinct ?second" and
    s_s: "\<forall>a \<in> set ?second. \<exists>n' \<in> set (dir_names es). below (dir_prefix tp) n' (src a)"
    by simp_all
  have f_b: "\<forall>a \<in> set ?first. below (dir_prefix tp) n (src a)"
  proof
    fix a assume "a \<in> set ?first"
    with f_s have "src a = os_path_join tp n \<or>
        (\<exists>n'. below (dir_prefix (os_path_join tp n)) n' (src a))" by blast
    then show "below (dir_prefix tp) n (src a)"
    proof
      assume "src a = os_path_join tp n"
      then show ?thesis using j by (simp add: below_self)
    next
      assume "\<exists>n'. below (dir_prefix (os_path_join tp n)) n' (src a)"
      then obtain n' where "below (dir_prefix (dir_prefix tp @ n)) n' (src a)" using j by auto
      then show ?thesis using below_step [OF nw] by blast
    qed
  qed
  have f_dir: "?first \<noteq> [] \<Longrightarrow> is_dir_node t"
    by (cases t) (simp_all add: assets_of_Nil is_dir_node_def)
  have disj: "set ?first \<inter> set ?second = {}"
  proof (rule ccontr)
    assume "set ?first \<inter> set ?second \<noteq> {}"
    then obtain a where a1: "a \<in> set ?first" and a2: "a \<in> set ?second" by blast
    from s_s a2 obtain n' where n': "n' \<in> set (dir_names es)" "below (dir_prefix tp) n' (src a)"
      by blast
    from n'(1) dir_names_subset [of es] have in_es: "n' \<in> fst ` set es" by blast
    with wf_name [OF w] have "CHR ''/'' \<notin> set n'" by blast
    from below_unique [OF nw(2) this] f_b a1 n'(2) have "n = n'" by blast
    with nn in_es show False by simp
  qed
  have all_s: "\<forall>a \<in> set (?first @ ?second).
      \<exists>n' \<in> set (dir_names ((n, t) # es)). below (dir_prefix tp) n' (src a)"
  proof
    fix a assume "a \<in> set (?first @ ?second)"
    then consider "a \<in> set ?first" | "a \<in> set ?second" by auto
    then show "\<exists>n' \<in> set (dir_names ((n, t) # es)). below (dir_prefix tp) n' (src a)"
    proof cases
      case 1
      then have "?first \<noteq> []" by auto
      with f_dir have "n \<in> set (dir_names ((n, t) # es))" by (simp add: dir_names_Cons)
      with f_b 1 show ?thesis by blast
    next
      case 2
      with s_s obtain n' where "n' \<in> set (dir_names es)" "below (dir_prefix tp) n' (src a)" by blast
      then show ?thesis by (auto simp: dir_names_Cons)
    qed
  qed
  have "assets_of fs (os_walk_subdirs tp ((n, t) # es)) = ?first @ ?second"
    by (simp add: assets_of_append)
  with f_d s_d disj all_s show ?case by simp
qed

lemma render_Nil [simp]: "render tp [] = tp"
  by (simp add: render_def)

lemma render_Cons: "render tp (n # ns) = render (os_path_join tp n) ns"
  by (simp add: render_def)

lemma render_snoc: "render tp (ns @ [f]) = os_path_join (render tp ns) f"
  by (simp add: render_def)

lemma render_nonempty: "tp \<noteq> [] \<Longrightarrow> render tp ns \<noteq> []"
  by (induction ns arbitrary: tp) (simp_all add: render_Cons join_nonempty)

lemma descend_wf: "wf_node r \<Longrightarrow> descend r ns = Some t \<Longrightarrow> wf_node t"
proof (induction ns arbitrary: r)
  case Nil
  then show ?case by simp
next
  case (Cons n ns)
  show ?case
  proof (cases r)
    case (File b c)
    with Cons.prems show ?thesis by simp
  next
    case (Dir es)
    with Cons.prems obtain t' where t': "map_of es n = Some t'" "descend t' ns = Some t"
      by (auto split: option.splits)
    from t'(1) have "(n, t') \<in> set es" by (rule map_of_SomeD)
    with Cons.prems(1) Dir have "wf_node t'" by (auto simp: wf_entries_iff)
    with Cons.IH t'(2) show ?thesis by blast
  qed
qed

lemma resolve_wf: "wf_node (fs_root fs) \<Longrightarrow> resolve fs p = Some t \<Longrightarrow> wf_node t"
  by (auto simp: resolve_def split: if_splits option.splits dest: descend_wf)

lemma walk_triples:
  "wf_node t \<Longrightarrow>
     (w \<in> set (os_walk_node tp t)) \<longleftrightarrow>
     (\<exists>ns es. descend t ns = Some (Dir es) \<and> w = (render tp ns, dir_names es, file_names es))"
  "distinct (map fst es) \<Longrightarrow> wf_entries es \<Longrightarrow>
     (w \<in> set (os_walk_subdirs tp es)) \<longleftrightarrow>
     (\<exists>n t' ns es'. (n, t') \<in> set es \<and> descend t' ns = Some (Dir es') \<and>
        w = (render (os_path_join tp n) ns, dir_names es', file_names es'))"
proof (induction tp t and tp es rule: os_walk_node_os_walk_subdirs.induct)
  case (1 tp r c)
  have "\<And>ns es. descend (File r c) ns \<noteq> Some (Dir es)"
  proof -
    fix ns es show "descend (File r c) ns \<noteq> Some (Dir es)" by (cases ns) simp_all
  qed
  then show ?case by simp
next
  case (2 tp es)
  then have d: "distinct (map fst es)" and wf: "wf_entries es" by simp_all
  note ih = "2.IH" [OF d wf]
  show ?case
  proof
    assume "w \<in> set (os_walk_node tp (Dir es))"
    then consider "w = (tp, dir_names es, file_names es)" | "w \<in> set (os_walk_subdirs tp es)"
      by auto
    then show "\<exists>ns es'. descend (Dir es) ns = Some (Dir es') \<and>
        w = (render tp ns, dir_names es', file_names es')"
    proof cases
      case 1
      then have "descend (Dir es) [] = Some (Dir es) \<and>
          w = (render tp [], dir_names es, file_names es)" by simp
      then show ?thesis by blast
    next
      case 2
      with ih obtain n t' ns es' where
        x: "(n, t') \<in> set es" "descend t' ns = Some (Dir es')"
           "w = (render (os_path_join tp n) ns, dir_names es', file_names es')" by blast
      from d x(1) have "map_of es n = Some t'" by simp
      with x(2,3) have "descend (Dir es) (n # ns) = Some (Dir es') \<and>
          w = (render tp (n # ns), dir_names es', file_names es')"
        by (simp add: render_Cons)
      then show ?thesis by blast
    qed
  next
    assume "\<exists>ns es'. descend (Dir es) ns = Some (Dir es') \<and>
        w = (render tp ns, dir_names es', file_names es')"
    then obtain ns es' where
      x: "descend (Dir es) ns = Some (Dir es')" "w = (render tp ns, dir_names es', file_names es')"
      by blast
    show "w \<in> set (os_walk_node tp (Dir es))"
    proof (cases ns)
      case Nil
      with x show ?thesis by simp
    next
      case (Cons n ns')
      with x(1) obtain t' where t': "map_of es n = Some t'" "descend t' ns' = Some (Dir es')"
        by (auto split: option.splits)
      from t'(1) have "(n, t') \<in> set es" by (rule map_of_SomeD)
      with t'(2) x(2) Cons have "w \<in> set (os_walk_subdirs tp es)"
        unfolding ih by (auto simp: render_Cons)
      then show ?thesis by simp
    qed
  qed
next
  case (3 tp)
  then show ?case by simp
next
  case (4 tp n t es)
  from "4.prems" have d: "distinct (map fst es)" and wt: "wf_node t" and wf: "wf_entries es"
    by auto
  note ih1 = "4.IH"(1) [OF wt]
  note ih2 = "4.IH"(2) [OF d wf]
  have "w \<in> set (os_walk_subdirs tp ((n, t) # es)) \<longleftrightarrow>
      w \<in> set (os_walk_node (os_path_join tp n) t) \<or> w \<in> set (os_walk_subdirs tp es)"
    by simp
  also have "\<dots> \<longleftrightarrow>
      (\<exists>ns es'. descend t ns = Some (Dir es') \<and>
          w = (render (os_path_join tp n) ns, dir_names es', file_names es')) \<or>
      (\<exists>n' t' ns es'. (n', t') \<in> set es \<and> descend t' ns = Some (Dir es') \<and>
          w = (render (os_path_join tp n') ns, dir_names es', file_names es'))"
    unfolding ih1 ih2 ..
  also have "\<dots> \<longleftrightarrow>
      (\<exists>n' t' ns es'. (n', t') \<in> set ((n, t) # es) \<and> descend t' ns = Some (Dir es') \<and>
          w = (render (os_path_join tp n') ns, dir_names es', file_names es'))"
    unfolding list.set insert_iff by blast
  finally show ?case .
qed

lemma walk_assets_node:
  "resolve fs base_path = Some (Dir es0) \<Longrightarrow>
   walk_assets fs base_path = assets_of fs (os_walk_node base_path (Dir es0))"
  by (simp add: walk_assets_def assets_of_def os_walk_def)

lemma in_assets_of: "a \<in> set (assets_of fs ws) \<longleftrightarrow> (\<exists>w \<in> set ws. a \<in> set (visit fs w))"
  by (auto simp: assets_of_def)

lemma folder_in_visit:
  "folder_record p \<in> set (visit fs (root, dirs, files)) \<longleftrightarrow>
     p = root \<and> os_path_exists fs (root @ ''.meta'')"
proof
  assume "folder_record p \<in> set (visit fs (root, dirs, files))"
  from visit_shape [OF this] have "folder_record p = folder_record root \<and>
      os_path_exists fs (root @ ''.meta'')" by auto
  then show "p = root \<and> os_path_exists fs (root @ ''.meta'')"
    by (simp add: folder_record_def)
next
  assume "p = root \<and> os_path_exists fs (root @ ''.meta'')"
  then show "folder_record p \<in> set (visit fs (root, dirs, files))" by (simp add: visit_def)
qed

lemma file_in_visit:
  "file_record p \<in> set (visit fs (root, dirs, files)) \<longleftrightarrow>
     (\<exists>f \<in> set files. \<not> endswith f ''.meta'' \<and> p = os_path_join root f \<and>
        os_path_exists fs (p @ ''.meta''))"
proof
  assume "file_record p \<in> set (visit fs (root, dirs, files))"
  from visit_shape [OF this] obtain f where
    "f \<in> set files" "\<not> endswith f ''.meta''" "file_record p = file_record (os_path_join root f)"
    "os_path_exists fs (os_path_join root f @ ''.meta'')"
    using folder_not_file [of root p] by metis
  moreover from this(3) have "p = os_path_join root f" by (simp add: file_record_def)
  ultimately show "\<exists>f \<in> set files. \<not> endswith f ''.meta'' \<and> p = os_path_join root f \<and>
        os_path_exists fs (p @ ''.meta'')" by blast
next
  assume "\<exists>f \<in> set files. \<not> endswith f ''.meta'' \<and> p = os_path_join root f \<and>
        os_path_exists fs (p @ ''.meta'')"
  then show "file_record p \<in> set (visit fs (root, dirs, files))"
    by (auto simp: visit_def file_assets_def Let_def)
qed

lemma count_list_distinct:
  "distinct xs \<Longrightarrow> count_list xs x = (if x \<in> set xs then 1 else 0)"
  by (induction xs) auto

text \<open>
  What the enumerator does on a tree all of whose directories can be listed and that has no
  symbolic links. Let the file system be well formed and the root path name a directory.
  The sequence is the records of the walk, with one more record of the root directory put
  in front when the root's own sidecar exists. The records of the walk are all different.
  Among them are, for every directory of the tree (the root is one of them), its folder
  record exactly when the path \<open>p.meta\<close> exists for its path \<open>p\<close>, and for every file of the
  tree its file record exactly when its name does not end in \<open>.meta\<close> and \<open>p.meta\<close> exists;
  and there are no others. So every record but the root's occurs once in the sequence, and
  the root's occurs twice when its sidecar exists.
\<close>

lemma walk_records:
  assumes "wf_node (fs_root fs)" and "resolve fs base_path = Some (Dir es0)"
  shows "get_all_assets fs base_path =
           (if os_path_exists fs (base_path @ ''.meta'') then [folder_record base_path] else [])
           @ walk_assets fs base_path \<and>
         distinct (walk_assets fs base_path) \<and>
         (\<forall>ns es. descend (Dir es0) ns = Some (Dir es) \<longrightarrow>
            (folder_record (render base_path ns) \<in> set (walk_assets fs base_path) \<longleftrightarrow>
               os_path_exists fs (render base_path ns @ ''.meta''))) \<and>
         (\<forall>ns es f. descend (Dir es0) ns = Some (Dir es) \<and> f \<in> set (file_names es) \<longrightarrow>
            (file_record (render base_path (ns @ [f])) \<in> set (walk_assets fs base_path) \<longleftrightarrow>
               \<not> endswith f ''.meta'' \<and>
               os_path_exists fs (render base_path (ns @ [f]) @ ''.meta''))) \<and>
         (\<forall>a \<in> set (walk_assets fs base_path).
            \<exists>ns es. descend (Dir es0) ns = Some (Dir es) \<and>
              (a = folder_record (render base_path ns) \<or>
               (\<exists>f \<in> set (file_names es). a = file_record (render base_path (ns @ [f]))))) \<and>
         (\<forall>a \<in> set (walk_assets fs base_path). a \<noteq> folder_record base_path \<longrightarrow>
            count_list (get_all_assets fs base_path) a = 1) \<and>
         count_list (get_all_assets fs base_path) (folder_record base_path) =
           (if os_path_exists fs (base_path @ ''.meta'') then 2 else 0)"
proof -
  let ?t = "Dir es0"
  let ?ws = "os_walk_node base_path ?t"
  have wt: "wf_node ?t" using resolve_wf [OF assms] .
  have bn: "base_path \<noteq> []" using assms(2) by (auto simp: resolve_def)
  have wa: "walk_assets fs base_path = assets_of fs ?ws" using walk_assets_node [OF assms(2)] .
  note tri = walk_triples(1) [OF wt, of _ base_path]
  have names: "\<And>ns es f. descend ?t ns = Some (Dir es) \<Longrightarrow> f \<in> set (file_names es) \<Longrightarrow>
      f \<noteq> [] \<and> CHR ''/'' \<notin> set f"
  proof -
    fix ns es f
    assume "descend ?t ns = Some (Dir es)" and f: "f \<in> set (file_names es)"
    then have "wf_node (Dir es)" using descend_wf [OF wt] by blast
    then have "wf_entries es" by simp
    with f file_names_subset [of es] show "f \<noteq> [] \<and> CHR ''/'' \<notin> set f"
      using wf_name by blast
  qed
  have c1: "get_all_assets fs base_path =
      (if os_path_exists fs (base_path @ ''.meta'') then [folder_record base_path] else [])
      @ walk_assets fs base_path"
    by (simp add: get_all_assets_def Let_def)
  have c2: "distinct (walk_assets fs base_path)"
    unfolding wa using walk_sources(1) [OF wt] by blast
  have c3: "\<forall>ns es. descend ?t ns = Some (Dir es) \<longrightarrow>
      (folder_record (render base_path ns) \<in> set (walk_assets fs base_path) \<longleftrightarrow>
         os_path_exists fs (render base_path ns @ ''.meta''))"
  proof (intro allI impI)
    fix ns es
    assume d: "descend ?t ns = Some (Dir es)"
    then have w: "(render base_path ns, dir_names es, file_names es) \<in> set ?ws"
      unfolding tri by blast
    show "folder_record (render base_path ns) \<in> set (walk_assets fs base_path) \<longleftrightarrow>
        os_path_exists fs (render base_path ns @ ''.meta'')"
    proof
      assume "folder_record (render base_path ns) \<in> set (walk_assets fs base_path)"
      then obtain w' where w': "folder_record (render base_path ns) \<in> set (visit fs w')"
        unfolding wa in_assets_of by blast
      obtain r ds fl where "w' = (r, ds, fl)" by (cases w')
      with w' show "os_path_exists fs (render base_path ns @ ''.meta'')"
        by (simp add: folder_in_visit)
    next
      assume "os_path_exists fs (render base_path ns @ ''.meta'')"
      then have "folder_record (render base_path ns)
          \<in> set (visit fs (render base_path ns, dir_names es, file_names es))"
        by (simp add: folder_in_visit)
      with w show "folder_record (render base_path ns) \<in> set (walk_assets fs base_path)"
        unfolding wa in_assets_of by blast
    qed
  qed
  have c4: "\<forall>ns es f. descend ?t ns = Some (Dir es) \<and> f \<in> set (file_names es) \<longrightarrow>
      (file_record (render base_path (ns @ [f])) \<in> set (walk_assets fs base_path) \<longleftrightarrow>
         \<not> endswith f ''.meta'' \<and> os_path_exists fs (render base_path (ns @ [f]) @ ''.meta''))"
  proof (intro allI impI)
    fix ns es f
    assume "descend ?t ns = Some (Dir es) \<and> f \<in> set (file_names es)"
    then have d: "descend ?t ns = Some (Dir es)" and f: "f \<in> set (file_names es)" by simp_all
    let ?p = "render base_path (ns @ [f])"
    have p: "?p = os_path_join (render base_path ns) f" by (rule render_snoc)
    from d have w: "(render base_path ns, dir_names es, file_names es) \<in> set ?ws"
      unfolding tri by blast
    have fw: "f \<noteq> [] \<and> CHR ''/'' \<notin> set f" using names [OF d f] .
    have e: "endswith ?p ''.meta'' \<longleftrightarrow> endswith f ''.meta''"
      unfolding p using endswith_join [OF render_nonempty [OF bn]] fw by blast
    show "file_record ?p \<in> set (walk_assets fs base_path) \<longleftrightarrow>
        \<not> endswith f ''.meta'' \<and> os_path_exists fs (?p @ ''.meta'')"
    proof
      assume "file_record ?p \<in> set (walk_assets fs base_path)"
      then obtain w' where w': "w' \<in> set ?ws" "file_record ?p \<in> set (visit fs w')"
        unfolding wa in_assets_of by blast
      from w'(1) obtain ns' es' where
        d': "descend ?t ns' = Some (Dir es')" and
        w'eq: "w' = (render base_path ns', dir_names es', file_names es')"
        unfolding tri by blast
      from w'(2) obtain f' where
        f': "f' \<in> set (file_names es')" "\<not> endswith f' ''.meta''"
            "?p = os_path_join (render base_path ns') f'" "os_path_exists fs (?p @ ''.meta'')"
        unfolding w'eq file_in_visit by blast
      have "endswith ?p ''.meta'' \<longleftrightarrow> endswith f' ''.meta''"
        unfolding f'(3) using endswith_join [OF render_nonempty [OF bn]] names [OF d' f'(1)]
        by blast
      with f'(2) e have "\<not> endswith f ''.meta''" by simp
      with f'(4) show "\<not> endswith f ''.meta'' \<and> os_path_exists fs (?p @ ''.meta'')" by simp
    next
      assume "\<not> endswith f ''.meta'' \<and> os_path_exists fs (?p @ ''.meta'')"
      with f p have "file_record ?p
          \<in> set (visit fs (render base_path ns, dir_names es, file_names es))"
        unfolding file_in_visit by blast
      with w show "file_record ?p \<in> set (walk_assets fs base_path)"
        unfolding wa in_assets_of by blast
    qed
  qed
  have c5: "\<forall>a \<in> set (walk_assets fs base_path).
      \<exists>ns es. descend ?t ns = Some (Dir es) \<and>
        (a = folder_record (render base_path ns) \<or>
         (\<exists>f \<in> set (file_names es). a = file_record (render base_path (ns @ [f]))))"
  proof
    fix a assume "a \<in> set (walk_assets fs base_path)"
    then obtain w where w: "w \<in> set ?ws" "a \<in> set (visit fs w)"
      unfolding wa in_assets_of by blast
    from w(1) obtain ns es where
      d: "descend ?t ns = Some (Dir es)" and
      weq: "w = (render base_path ns, dir_names es, file_names es)"
      unfolding tri by blast
    from w(2) visit_shape [of a fs "render base_path ns" "dir_names es" "file_names es"]
    have "a = folder_record (render base_path ns) \<or>
        (\<exists>f \<in> set (file_names es). a = file_record (os_path_join (render base_path ns) f))"
      unfolding weq by blast
    then have "a = folder_record (render base_path ns) \<or>
        (\<exists>f \<in> set (file_names es). a = file_record (render base_path (ns @ [f])))"
      by (simp add: render_snoc)
    with d show "\<exists>ns es. descend ?t ns = Some (Dir es) \<and>
        (a = folder_record (render base_path ns) \<or>
         (\<exists>f \<in> set (file_names es). a = file_record (render base_path (ns @ [f]))))"
      by blast
  qed
  have c6: "\<forall>a \<in> set (walk_assets fs base_path). a \<noteq> folder_record base_path \<longrightarrow>
      count_list (get_all_assets fs base_path) a = 1"
    unfolding c1 using c2 by (simp add: count_list_distinct)
  have root_in: "folder_record base_path \<in> set (walk_assets fs base_path) \<longleftrightarrow>
      os_path_exists fs (base_path @ ''.meta'')"
  proof -
    have "descend ?t [] = Some (Dir es0)" by simp
    with c3 have "folder_record (render base_path []) \<in> set (walk_assets fs base_path) \<longleftrightarrow>
        os_path_exists fs (render base_path [] @ ''.meta'')" by blast
    then show ?thesis by simp
  qed
  have c7: "count_list (get_all_assets fs base_path) (folder_record base_path) =
      (if os_path_exists fs (base_path @ ''.meta'') then 2 else 0)"
    unfolding c1 using c2 root_in by (simp add: count_list_distinct)
  from c1 c2 c3 c4 c5 c6 c7 show ?thesis by blast
qed

text \<open>
  In the example package: the folder \<open>A/d\<close> and the file \<open>A/f\<close> are there once, the sidecar
  \<open>A/f.meta\<close> is not, and the root \<open>A\<close> is there twice.
\<close>

lemma walk_records_example:
  "wf_node (fs_root fs_pkg) \<and> resolve fs_pkg ''A'' = Some (Dir es_pkg) \<and>
   get_all_assets fs_pkg ''A'' = [folder_record ''A''] @ walk_assets fs_pkg ''A'' \<and>
   distinct (walk_assets fs_pkg ''A'') \<and>
   descend (Dir es_pkg) [''d''] = Some (Dir []) \<and>
   os_path_exists fs_pkg (render ''A'' [''d''] @ ''.meta'') \<and>
   folder_record (render ''A'' [''d'']) \<in> set (walk_assets fs_pkg ''A'') \<and>
   descend (Dir es_pkg) [] = Some (Dir es_pkg) \<and> ''f'' \<in> set (file_names es_pkg) \<and>
   \<not> endswith ''f'' ''.meta'' \<and> os_path_exists fs_pkg (render ''A'' ([] @ [''f'']) @ ''.meta'') \<and>
   file_record (render ''A'' ([] @ [''f''])) \<in> set (walk_assets fs_pkg ''A'') \<and>
   ''f.meta'' \<in> set (file_names es_pkg) \<and> endswith ''f.meta'' ''.meta'' \<and>
   file_record (render ''A'' ([] @ [''f.meta''])) \<notin> set (walk_assets fs_pkg ''A'') \<and>
   count_list (get_all_assets fs_pkg ''A'') (file_record (render ''A'' ([] @ [''f'']))) = 1 \<and>
   count_list (get_all_assets fs_pkg ''A'') (folder_record ''A'') = 2"
proof -
  have w: "wf_node (fs_root fs_pkg)" by code_simp
  have r: "resolve fs_pkg ''A'' = Some (Dir es_pkg)" by code_simp
  have m: "os_path_exists fs_pkg (''A'' @ ''.meta'')" by code_simp
  have d1: "descend (Dir es_pkg) [''d''] = Some (Dir [])" by code_simp
  have x1: "os_path_exists fs_pkg (render ''A'' [''d''] @ ''.meta'')" by code_simp
  have d2: "descend (Dir es_pkg) [] = Some (Dir es_pkg)" by simp
  have f2: "''f'' \<in> set (file_names es_pkg)" by code_simp
  have e2: "\<not> endswith ''f'' ''.meta''" by code_simp
  have x2: "os_path_exists fs_pkg (render ''A'' ([] @ [''f'']) @ ''.meta'')" by code_simp
  have f3: "''f.meta'' \<in> set (file_names es_pkg)" by code_simp
  have e3: "endswith ''f.meta'' ''.meta''" by code_simp
  note t = walk_records [OF w r]
  from t m have c1: "get_all_assets fs_pkg ''A'' = [folder_record ''A''] @ walk_assets fs_pkg ''A''"
    by simp
  from t have c2: "distinct (walk_assets fs_pkg ''A'')" by blast
  from t d1 x1 have c3: "folder_record (render ''A'' [''d'']) \<in> set (walk_assets fs_pkg ''A'')"
    by blast
  from t d2 f2 e2 x2
  have c4: "file_record (render ''A'' ([] @ [''f''])) \<in> set (walk_assets fs_pkg ''A'')"
    by blast
  from t d2 f3 e3
  have c5: "file_record (render ''A'' ([] @ [''f.meta''])) \<notin> set (walk_assets fs_pkg ''A'')"
    by blast
  have ne: "file_record (render ''A'' ([] @ [''f''])) \<noteq> folder_record ''A''"
    using folder_not_file [of "''A''" "render ''A'' ([] @ [''f''])"] by metis
  from t c4 ne
  have c6: "count_list (get_all_assets fs_pkg ''A'') (file_record (render ''A'' ([] @ [''f'']))) = 1"
    by blast
  from t have "count_list (get_all_assets fs_pkg ''A'') (folder_record ''A'') =
      (if os_path_exists fs_pkg (''A'' @ ''.meta'') then 2 else 0)" by blast
  with m have c7: "count_list (get_all_assets fs_pkg ''A'') (folder_record ''A'') = 2"
    by (simp only: if_True)
  from w r c1 c2 d1 x1 c3 d2 f2 e2 x2 c4 f3 e3 c5 c6 c7 show ?thesis by blast
qed

text \<open>
  Claim C1 does not hold of the code: a root folder with a sidecar is recorded twice. The
  walk yields the root first, so the loop has made its record when the record is put in
  front once more after the loop (under the comment \<^verbatim>\<open># Also add the root folder meta\<close>).
  For the empty folder \<open>A\<close> with the read-only sidecar \<open>A.meta\<close> the sequence is the record
  of \<open>A\<close> twice, two assets are reported found, and the run ends with \<^verbatim>\<open>PermissionError\<close>
  and no archive, because the second record copies the sidecar onto the read-only copy the
  first one left; the record staged once goes through. In the example package, whose
  sidecars are writable, the sequence begins with the record of \<open>A\<close> twice as well.
\<close>

theorem enumeration_root_twice:
  "resolve fs_ro ''A'' = Some (Dir []) \<and> os_path_exists fs_ro (''A'' @ ''.meta'') \<and>
   walk_assets fs_ro ''A'' = [folder_record ''A''] \<and>
   get_all_assets fs_ro ''A'' = [folder_record ''A'', folder_record ''A''] \<and>
   count_list (get_all_assets fs_ro ''A'') (folder_record ''A'') = 2 \<and>
   stage_all fs_ro [folder_record ''A''] ([], []) = Inr (st_ro, [Adding ''A'' ''12'']) \<and>
   create_unitypackage fs_ro ''out.unitypackage'' ''A'' =
     \<lparr>raised = Some PermissionError, temp_dir = None, written = None,
      printed = [Creating ''out.unitypackage'', AssetsFolder ''A'', Found 2,
                 Adding ''A'' ''12'', Adding ''A'' ''12'']\<rparr> \<and>
   get_all_assets fs_pkg ''A'' =
     [folder_record ''A'', folder_record ''A'', file_record ''A/f'',
      file_record ''A/Broken.cs'', folder_record ''A/d''] \<and>
   count_list (get_all_assets fs_pkg ''A'') (folder_record ''A'') = 2"
  by code_simp

section \<open>Facts about staging\<close>

lemma makedirs_Inl_iff:
  "(\<exists>e. makedirs st g = Inl e) \<longleftrightarrow> map_of st g = None \<and> name_max < length g"
  by (auto simp: makedirs_def split: option.splits)

lemma keys_makedirs: "makedirs st g = Inr st1 \<Longrightarrow> fst ` set st1 = insert g (fst ` set st)"
  by (auto simp: makedirs_def split: option.splits if_splits dest: map_of_SomeD
      simp: rev_image_eqI)

lemma map_of_makedirs:
  "makedirs st g = Inr st1 \<Longrightarrow>
   map_of st1 g' =
     (if g' = g then Some (case map_of st g of None \<Rightarrow> [] | Some e \<Rightarrow> e) else map_of st g')"
  by (auto simp: makedirs_def map_add_def split: option.splits if_splits)

lemma keys_put_file: "fst ` set (put_file st g name m c) = fst ` set st"
  by (simp add: put_file_def AList.dom_map_entry)

lemma map_of_put_file:
  "map_of (put_file st g name m c) g' =
     (if g' = g then map_option (AList.update name (m, c)) (map_of st g) else map_of st g')"
  by (simp add: put_file_def AList.map_of_map_entry split: option.splits)

lemma staged_file_makedirs:
  "makedirs st g = Inr st1 \<Longrightarrow> staged_file st1 g' name = staged_file st g' name"
  by (simp add: staged_file_def map_of_makedirs split: option.splits)

lemma writable_in_makedirs:
  "makedirs st g = Inr st1 \<Longrightarrow> writable_in st1 g' name = writable_in st g' name"
  by (simp add: writable_in_def map_of_makedirs split: option.splits)

lemma staged_file_put_file:
  "staged_file (put_file st g name m c) g' name' =
     (if g' = g \<and> name' = name \<and> map_of st g \<noteq> None then Some c else staged_file st g' name')"
  by (auto simp: staged_file_def map_of_put_file AList.update_conv' split: option.splits)

lemma writable_in_put_file:
  "writable_in (put_file st g name m c) g' name' =
     (if g' = g \<and> name' = name \<and> map_of st g \<noteq> None then writable m
      else writable_in st g' name')"
  by (auto simp: writable_in_def map_of_put_file AList.update_conv' split: option.splits)

lemma extract_guid_Some:
  "fst (extract_guid fs p) = Some g \<Longrightarrow>
     extract_guid fs p = (Some g, []) \<and> g \<noteq> [] \<and> (\<exists>m. read_bytes fs p = Inr m)"
  by (auto simp: extract_guid_def extract_guid_body_def read_text_def
      split: sum.splits option.splits if_splits dest: re_search_nonempty)

lemma extract_guid_not_empty: "fst (extract_guid fs p) \<noteq> Some []"
  using extract_guid_Some by blast

lemma stage_asset_skip:
  "fst (extract_guid fs (meta a)) = None \<Longrightarrow>
   stage_asset fs a (st, out) =
     Inr (st, out @ snd (extract_guid fs (meta a)) @ [Skipping (path a)])"
  by (cases "extract_guid fs (meta a)") (simp add: stage_asset_def falsy_def)

lemma keys_staged3: "fst ` set (staged3 st g p mm m) = fst ` set st"
  by (simp add: staged3_def keys_put_file)

lemma staged_file_staged3:
  "map_of st g \<noteq> None \<Longrightarrow>
   staged_file (staged3 st g p mm m) g' name =
     (if g' = g \<and> name = ''pathname'' then Some p
      else if g' = g \<and> name = ''asset.meta'' then Some m
      else staged_file st g' name)"
  by (simp add: staged3_def staged_file_put_file map_of_put_file)

lemma map_of_staged3_other: "g' \<noteq> g \<Longrightarrow> map_of (staged3 st g p mm m) g' = map_of st g'"
  by (simp add: staged3_def map_of_put_file)

lemma map_of_staged3_same: "map_of st g \<noteq> None \<Longrightarrow> map_of (staged3 st g p mm m) g \<noteq> None"
  by (simp add: staged3_def map_of_put_file)

text \<open>What a round of the loop that went through has done, phase by phase.\<close>

lemma stage_asset_Inr:
  assumes "fst (extract_guid fs (meta a)) = Some g"
    and "stage_asset fs a (st, out) = Inr (st', out')"
  shows "\<exists>st1 m. makedirs st g = Inr st1 \<and> read_bytes fs (meta a) = Inr m \<and>
           out' = out @ [Adding (path a) (take 8 g)] \<and>
           (if \<not> is_folder a \<and> \<not> falsy (asset a)
            then \<exists>c. read_bytes fs (the (asset a)) = Inr c \<and>
                   st' = put_file (staged3 st1 g (path a) (mode_of fs (meta a)) m) g ''asset''
                           (mode_of fs (the (asset a))) c
            else st' = staged3 st1 g (path a) (mode_of fs (meta a)) m)"
proof -
  from extract_guid_Some [OF assms(1)] have
    eg: "extract_guid fs (meta a) = (Some g, [])" and ne: "g \<noteq> []" by blast+
  have nf: "\<not> falsy (Some g)" using ne by (simp add: falsy_def)
  show ?thesis
    using assms(2) eg nf
    by (auto simp: stage_asset_def Let_def write_file_def shutil_copy2_def staged3_def
        split: sum.splits if_splits)
qed

text \<open>When a round of the loop raises, for an asset whose identifier is resolved.\<close>

lemma stage_asset_Inl_iff:
  assumes "fst (extract_guid fs (meta a)) = Some g"
  shows "(\<exists>err. stage_asset fs a (st, out) = Inl err) \<longleftrightarrow>
         (map_of st g = None \<and> name_max < length g) \<or>
         \<not> writable_in st g ''pathname'' \<or>
         \<not> writable_in st g ''asset.meta'' \<or>
         (\<not> is_folder a \<and> \<not> falsy (asset a) \<and>
            ((\<exists>e. read_bytes fs (the (asset a)) = Inl e) \<or> \<not> writable_in st g ''asset''))"
proof -
  from extract_guid_Some [OF assms(1)] obtain m where
    eg: "extract_guid fs (meta a) = (Some g, [])" and ne: "g \<noteq> []"
    and m: "read_bytes fs (meta a) = Inr m" by blast
  have nf: "\<not> falsy (Some g)" using ne by (simp add: falsy_def)
  show ?thesis
  proof (cases "makedirs st g")
    case (Inl e)
    then have "map_of st g = None \<and> name_max < length g" using makedirs_Inl_iff by blast
    moreover have "\<exists>err. stage_asset fs a (st, out) = Inl err"
      using Inl eg nf by (simp add: stage_asset_def Let_def)
    ultimately show ?thesis by blast
  next
    case (Inr st1)
    then have n: "\<not> (map_of st g = None \<and> name_max < length g)"
      using makedirs_Inl_iff [of st g] by auto
    have k: "map_of st1 g \<noteq> None" using map_of_makedirs [OF Inr, of g] by simp
    note w = writable_in_makedirs [OF Inr]
    show ?thesis
      using Inr eg nf m n k
      by (simp add: stage_asset_def Let_def write_file_def shutil_copy2_def
          writable_in_put_file w split: sum.splits)
  qed
qed

lemma stage_asset_effect:
  assumes "fst (extract_guid fs (meta a)) = Some g"
    and "stage_asset fs a (st, out) = Inr (st', out')"
  shows "out' = out @ [Adding (path a) (take 8 g)] \<and>
         staged_file st' g ''pathname'' = Some (path a) \<and>
         (\<exists>m. read_bytes fs (meta a) = Inr m \<and> staged_file st' g ''asset.meta'' = Some m) \<and>
         (if \<not> is_folder a \<and> \<not> falsy (asset a)
          then \<exists>c. read_bytes fs (the (asset a)) = Inr c \<and> staged_file st' g ''asset'' = Some c
          else staged_file st' g ''asset'' = staged_file st g ''asset'') \<and>
         (\<forall>g'. g' \<noteq> g \<longrightarrow> map_of st' g' = map_of st g') \<and>
         fst ` set st' = insert g (fst ` set st)"
proof -
  from stage_asset_Inr [OF assms] obtain st1 m where
    md: "makedirs st g = Inr st1" and m: "read_bytes fs (meta a) = Inr m" and
    out': "out' = out @ [Adding (path a) (take 8 g)]" and
    form: "if \<not> is_folder a \<and> \<not> falsy (asset a)
            then \<exists>c. read_bytes fs (the (asset a)) = Inr c \<and>
                   st' = put_file (staged3 st1 g (path a) (mode_of fs (meta a)) m) g ''asset''
                           (mode_of fs (the (asset a))) c
            else st' = staged3 st1 g (path a) (mode_of fs (meta a)) m"
    by blast
  have k: "map_of st1 g \<noteq> None" using map_of_makedirs [OF md, of g] by simp
  have oth: "\<And>g'. g' \<noteq> g \<Longrightarrow> map_of st1 g' = map_of st g'"
    using map_of_makedirs [OF md] by simp
  note sm = staged_file_makedirs [OF md]
  note km = keys_makedirs [OF md]
  show ?thesis
  proof (cases "\<not> is_folder a \<and> \<not> falsy (asset a)")
    case True
    with form obtain c where
      c: "read_bytes fs (the (asset a)) = Inr c" and
      st': "st' = put_file (staged3 st1 g (path a) (mode_of fs (meta a)) m) g ''asset''
                    (mode_of fs (the (asset a))) c"
      by auto
    show ?thesis
      using True c m out' oth map_of_staged3_same [OF k]
      by (simp add: st' staged_file_put_file staged_file_staged3 [OF k] map_of_put_file
          map_of_staged3_other keys_put_file keys_staged3 km)
  next
    case False
    with form have st': "st' = staged3 st1 g (path a) (mode_of fs (meta a)) m" by auto
    show ?thesis
      using False m out' oth
      by (auto simp: st' staged_file_staged3 [OF k] map_of_staged3_other keys_staged3 km sm)
  qed
qed

lemma stage_asset_keys:
  assumes "stage_asset fs a (st, out) = Inr (st', out')"
  shows "fst ` set st' =
     fst ` set st \<union> (case fst (extract_guid fs (meta a)) of None \<Rightarrow> {} | Some g \<Rightarrow> {g})"
proof (cases "fst (extract_guid fs (meta a))")
  case None
  with assms stage_asset_skip [OF None, of st out] show ?thesis by simp
next
  case (Some g)
  from stage_asset_effect [OF Some assms] have "fst ` set st' = insert g (fst ` set st)"
    by blast
  with Some show ?thesis by simp
qed

lemma stage_all_keys:
  "stage_all fs assets (st0, out0) = Inr (st, out) \<Longrightarrow>
   fst ` set st =
     fst ` set st0 \<union> {g. \<exists>a \<in> set assets. fst (extract_guid fs (meta a)) = Some g}"
proof (induction assets arbitrary: st0 out0)
  case Nil
  then show ?case by simp
next
  case (Cons a as)
  from Cons.prems obtain st1 out1 where
    s1: "stage_asset fs a (st0, out0) = Inr (st1, out1)" and
    s2: "stage_all fs as (st1, out1) = Inr (st, out)"
    by (auto split: sum.splits)
  from stage_asset_keys [OF s1] Cons.IH [OF s2] show ?case
    by (auto split: option.splits)
qed

lemma staged_file_absent: "g \<notin> fst ` set st \<Longrightarrow> staged_file st g name = None"
  by (simp add: staged_file_def map_of_eq_None_iff [THEN iffD2])

section \<open>The example package\<close>

lemma assets_pkg:
  "get_all_assets fs_pkg ''A'' =
     [folder_record ''A'', folder_record ''A'', file_record ''A/f'',
      file_record ''A/Broken.cs'', folder_record ''A/d'']"
  by code_simp

lemma staged_pkg: "stage_all fs_pkg (get_all_assets fs_pkg ''A'') ([], []) = Inr (st_pkg, out_pkg)"
  by code_simp

section \<open>Staging entries\<close>

text \<open>
  Claim C2. When the loop over the assets has run through, on the new empty directory, the
  entries of the staging directory are exactly the identifiers the extractor returned for
  the assets of the sequence; none of them is empty. An asset for which the extractor
  returned nothing leaves the staging directory as it was, whatever state it is met in,
  prints its diagnostic line and lets the loop go on.
\<close>

theorem staging_entries:
  assumes "stage_all fs assets ([], out) = Inr (st, out')"
  shows "fst ` set st = {g. \<exists>a \<in> set assets. fst (extract_guid fs (meta a)) = Some g} \<and>
         [] \<notin> fst ` set st \<and>
         (\<forall>a \<in> set assets. fst (extract_guid fs (meta a)) = None \<longrightarrow>
            (\<forall>s. stage_asset fs a s =
               Inr (fst s, snd s @ snd (extract_guid fs (meta a)) @ [Skipping (path a)])))"
proof -
  have k: "fst ` set st = {g. \<exists>a \<in> set assets. fst (extract_guid fs (meta a)) = Some g}"
    using stage_all_keys [OF assms] by simp
  have e: "[] \<notin> fst ` set st"
    unfolding k using extract_guid_not_empty by blast
  have s: "\<forall>a \<in> set assets. fst (extract_guid fs (meta a)) = None \<longrightarrow>
            (\<forall>s. stage_asset fs a s =
               Inr (fst s, snd s @ snd (extract_guid fs (meta a)) @ [Skipping (path a)]))"
  proof (intro ballI impI allI)
    fix a :: asset_record and s :: stage_state
    assume "fst (extract_guid fs (meta a)) = None"
    then show "stage_asset fs a s =
        Inr (fst s, snd s @ snd (extract_guid fs (meta a)) @ [Skipping (path a)])"
      using stage_asset_skip [of fs a "fst s" "snd s"] by simp
  qed
  from k e s show ?thesis by blast
qed

text \<open>
  In the example package the entries are \<open>12\<close> and \<open>ab\<close>; \<open>A/Broken.cs\<close> is skipped with
  one line.
\<close>

theorem staging_entries_witness:
  "stage_all fs_pkg (get_all_assets fs_pkg ''A'') ([], []) = Inr (st_pkg, out_pkg) \<and>
   fst ` set st_pkg = {''12'', ''ab''} \<and>
   {g. \<exists>a \<in> set (get_all_assets fs_pkg ''A''). fst (extract_guid fs_pkg (meta a)) = Some g}
     = {''12'', ''ab''} \<and>
   file_record ''A/Broken.cs'' \<in> set (get_all_assets fs_pkg ''A'') \<and>
   fst (extract_guid fs_pkg (meta (file_record ''A/Broken.cs''))) = None \<and>
   stage_asset fs_pkg (file_record ''A/Broken.cs'') (st_pkg, []) =
     Inr (st_pkg, [Skipping ''A/Broken.cs''])"
proof -
  have k: "fst ` set st_pkg = {''12'', ''ab''}" by (simp add: st_pkg_def)
  have m: "file_record ''A/Broken.cs'' \<in> set (get_all_assets fs_pkg ''A'')"
    by (simp add: assets_pkg)
  have n: "fst (extract_guid fs_pkg (meta (file_record ''A/Broken.cs''))) = None" by code_simp
  have e: "extract_guid fs_pkg (meta (file_record ''A/Broken.cs'')) = (None, [])" by code_simp
  have p: "path (file_record ''A/Broken.cs'') = ''A/Broken.cs''" by code_simp
  note w = staging_entries [OF staged_pkg]
  from w k have
    "{g. \<exists>a \<in> set (get_all_assets fs_pkg ''A''). fst (extract_guid fs_pkg (meta a)) = Some g}
       = {''12'', ''ab''}" by simp
  moreover from w m n have
    "stage_asset fs_pkg (file_record ''A/Broken.cs'') (st_pkg, []) =
       Inr (fst (st_pkg, [] :: message list),
            snd (st_pkg, [] :: message list) @
            snd (extract_guid fs_pkg (meta (file_record ''A/Broken.cs''))) @
            [Skipping (path (file_record ''A/Broken.cs''))])" by blast
  then have "stage_asset fs_pkg (file_record ''A/Broken.cs'') (st_pkg, []) =
     Inr (st_pkg, [Skipping ''A/Broken.cs''])" by (simp add: e p)
  ultimately show ?thesis using staged_pkg k m n by blast
qed

section \<open>The files of an entry\<close>

text \<open>
  Claim C3. Let an asset of the enumerated sequence resolve to the identifier \<open>g\<close> and be
  staged without error, in whatever state the staging directory is. If it is a folder,
  staging it creates no \<open>asset\<close> file: the entry has the \<open>asset\<close> file it had before, and none
  when the entry is new. If it is a file, the entry's \<open>asset\<close> file afterwards holds the
  bytes of the source file.
\<close>

theorem asset_file_copied:
  assumes "a \<in> set (get_all_assets fs base_path)"
    and "fst (extract_guid fs (meta a)) = Some g"
    and "stage_asset fs a (st, out) = Inr (st', out')"
  shows "(is_folder a \<longrightarrow>
            staged_file st' g ''asset'' = staged_file st g ''asset'' \<and>
            (g \<notin> fst ` set st \<longrightarrow> staged_file st' g ''asset'' = None)) \<and>
         (\<not> is_folder a \<longrightarrow>
            (\<exists>file_path c. asset a = Some file_path \<and> read_bytes fs file_path = Inr c \<and>
               staged_file st' g ''asset'' = Some c))"
proof -
  from stage_asset_effect [OF assms(2,3)] have
    eff: "if \<not> is_folder a \<and> \<not> falsy (asset a)
          then \<exists>c. read_bytes fs (the (asset a)) = Inr c \<and> staged_file st' g ''asset'' = Some c
          else staged_file st' g ''asset'' = staged_file st g ''asset''"
    by blast
  from get_all_assets_shape [OF assms(1)] show ?thesis
  proof
    assume "\<exists>p. a = folder_record p \<and> os_path_exists fs (p @ ''.meta'')"
    then obtain p where a: "a = folder_record p" by blast
    then have f: "is_folder a" by (simp add: folder_record_def)
    with eff have "staged_file st' g ''asset'' = staged_file st g ''asset''" by simp
    with f show ?thesis using staged_file_absent [of g st "''asset''"] by simp
  next
    assume "\<exists>p. p \<noteq> [] \<and> a = file_record p \<and> os_path_exists fs (p @ ''.meta'')"
    then obtain p where p: "p \<noteq> []" and a: "a = file_record p" by blast
    then have f: "\<not> is_folder a" and s: "asset a = Some p" and nf: "\<not> falsy (asset a)"
      by (simp_all add: file_record_def falsy_def)
    with eff obtain c where "read_bytes fs p = Inr c" "staged_file st' g ''asset'' = Some c"
      by auto
    with f s show ?thesis by blast
  qed
qed

text \<open>In the example package: the file \<open>A/f\<close> and the folder \<open>A/d\<close>, each staged alone.\<close>

theorem asset_file_copied_witness:
  "file_record ''A/f'' \<in> set (get_all_assets fs_pkg ''A'') \<and>
   fst (extract_guid fs_pkg (meta (file_record ''A/f''))) = Some ''ab'' \<and>
   stage_asset fs_pkg (file_record ''A/f'') ([], []) = Inr (st_file, [Adding ''A/f'' ''ab'']) \<and>
   read_bytes fs_pkg ''A/f'' = Inr ''hello'' \<and>
   staged_file st_file ''ab'' ''asset'' = Some ''hello'' \<and>
   folder_record ''A/d'' \<in> set (get_all_assets fs_pkg ''A'') \<and>
   fst (extract_guid fs_pkg (meta (folder_record ''A/d''))) = Some ''ab'' \<and>
   stage_asset fs_pkg (folder_record ''A/d'') ([], []) = Inr (st_folder, [Adding ''A/d'' ''ab'']) \<and>
   staged_file st_folder ''ab'' ''asset'' = None"
proof -
  have m1: "file_record ''A/f'' \<in> set (get_all_assets fs_pkg ''A'')" by (simp add: assets_pkg)
  have g1: "fst (extract_guid fs_pkg (meta (file_record ''A/f''))) = Some ''ab''" by code_simp
  have s1: "stage_asset fs_pkg (file_record ''A/f'') ([], []) = Inr (st_file, [Adding ''A/f'' ''ab''])"
    by code_simp
  have r1: "read_bytes fs_pkg ''A/f'' = Inr ''hello''" by code_simp
  have nf: "\<not> is_folder (file_record ''A/f'')" "asset (file_record ''A/f'') = Some ''A/f''"
    by (simp_all add: file_record_def)
  from asset_file_copied [OF m1 g1 s1] nf r1
  have c1: "staged_file st_file ''ab'' ''asset'' = Some ''hello''" by auto
  have m2: "folder_record ''A/d'' \<in> set (get_all_assets fs_pkg ''A'')" by (simp add: assets_pkg)
  have g2: "fst (extract_guid fs_pkg (meta (folder_record ''A/d''))) = Some ''ab''" by code_simp
  have s2: "stage_asset fs_pkg (folder_record ''A/d'') ([], []) =
      Inr (st_folder, [Adding ''A/d'' ''ab''])" by code_simp
  have f2: "is_folder (folder_record ''A/d'')" by (simp add: folder_record_def)
  have e2: "''ab'' \<notin> fst ` set ([] :: staging)" by simp
  from asset_file_copied [OF m2 g2 s2] f2 e2
  have c2: "staged_file st_folder ''ab'' ''asset'' = None" by blast
  from m1 g1 s1 r1 c1 m2 g2 s2 c2 show ?thesis by blast
qed

text \<open>
  Claim C4. Let an asset of the enumerated sequence resolve to the identifier \<open>g\<close> and be
  staged without error. With \<open>p\<close> the path under which the walk met the asset (its sidecar
  is \<open>p.meta\<close>, and \<open>p\<close> is its content file when it is a file), the \<open>pathname\<close> file of the
  entry holds \<open>p\<close> with every backslash turned into a slash, and nothing more.
\<close>

theorem pathname_written:
  assumes "a \<in> set (get_all_assets fs base_path)"
    and "fst (extract_guid fs (meta a)) = Some g"
    and "stage_asset fs a (st, out) = Inr (st', out')"
  shows "\<exists>p. meta a = p @ ''.meta'' \<and> asset a = (if is_folder a then None else Some p) \<and>
           path a = replace_backslash p \<and>
           staged_file st' g ''pathname'' = Some (replace_backslash p)"
proof -
  from stage_asset_effect [OF assms(2,3)]
  have pn: "staged_file st' g ''pathname'' = Some (path a)" by blast
  from get_all_assets_shape [OF assms(1)]
  obtain p where "a = folder_record p \<or> a = file_record p" by blast
  then have "meta a = p @ ''.meta'' \<and> asset a = (if is_folder a then None else Some p) \<and>
      path a = replace_backslash p"
    by (auto simp: folder_record_def file_record_def)
  with pn show ?thesis by auto
qed

text \<open>The file \<^verbatim>\<open>B/s\t\<close>, with a backslash in its name, is recorded as \<open>B/s/t\<close>.\<close>

theorem pathname_written_witness:
  "file_record (''B/s'' @ [CHR 0x5C] @ ''t'') \<in> set (get_all_assets fs_win ''B'') \<and>
   fst (extract_guid fs_win (meta (file_record (''B/s'' @ [CHR 0x5C] @ ''t'')))) = Some ''cd'' \<and>
   stage_asset fs_win (file_record (''B/s'' @ [CHR 0x5C] @ ''t'')) ([], []) =
     Inr (st_win, [Adding ''B/s/t'' ''cd'']) \<and>
   staged_file st_win ''cd'' ''pathname'' = Some ''B/s/t''"
proof -
  let ?a = "file_record (''B/s'' @ [CHR 0x5C] @ ''t'')"
  have ga: "get_all_assets fs_win ''B'' = [?a]" by code_simp
  have m: "?a \<in> set (get_all_assets fs_win ''B'')" by (simp only: ga list.set insertI1)
  have g: "fst (extract_guid fs_win (meta ?a)) = Some ''cd''" by code_simp
  have s: "stage_asset fs_win ?a ([], []) = Inr (st_win, [Adding ''B/s/t'' ''cd''])" by code_simp
  from pathname_written [OF m g s] obtain p where
    p: "meta ?a = p @ ''.meta''" and w: "staged_file st_win ''cd'' ''pathname'' = Some (replace_backslash p)"
    by blast
  from p have "p = ''B/s'' @ [CHR 0x5C] @ ''t''" by (simp add: file_record_def)
  with w have "staged_file st_win ''cd'' ''pathname'' = Some ''B/s/t''"
    by (simp add: replace_backslash_def)
  with m g s show ?thesis by blast
qed

section \<open>Two assets, one identifier\<close>

text \<open>
  Claim C8, as the code has it. Nothing looks whether the identifier \<open>g\<close> of an asset
  already names an entry: the asset is staged into it. Staging raises in these cases and no
  others: the entry is new and \<open>g\<close> is longer than a file name may be; the entry has a
  \<open>pathname\<close> or an \<open>asset.meta\<close> that is read-only (the copy of a read-only sidecar is); the
  asset is a file and its content cannot be read, or the entry has a read-only \<open>asset\<close>.
  When staging goes through, \<open>pathname\<close> and \<open>asset.meta\<close> of the entry are the asset's own;
  \<open>asset\<close> is the asset's content when the asset is a file, and is left as it was when the
  asset is a folder, so the copy an earlier file left there stays; every other entry is
  untouched.
\<close>

theorem collision_overwrites:
  assumes "fst (extract_guid fs (meta a)) = Some g"
  shows "((\<exists>err. stage_asset fs a (st, out) = Inl err) \<longleftrightarrow>
            (map_of st g = None \<and> name_max < length g) \<or>
            \<not> writable_in st g ''pathname'' \<or>
            \<not> writable_in st g ''asset.meta'' \<or>
            (\<not> is_folder a \<and> \<not> falsy (asset a) \<and>
               ((\<exists>e. read_bytes fs (the (asset a)) = Inl e) \<or>
                \<not> writable_in st g ''asset''))) \<and>
         (\<forall>st' out'. stage_asset fs a (st, out) = Inr (st', out') \<longrightarrow>
            out' = out @ [Adding (path a) (take 8 g)] \<and>
            staged_file st' g ''pathname'' = Some (path a) \<and>
            (\<exists>m. read_bytes fs (meta a) = Inr m \<and> staged_file st' g ''asset.meta'' = Some m) \<and>
            (if \<not> is_folder a \<and> \<not> falsy (asset a)
             then \<exists>c. read_bytes fs (the (asset a)) = Inr c \<and> staged_file st' g ''asset'' = Some c
             else staged_file st' g ''asset'' = staged_file st g ''asset'') \<and>
            (\<forall>g'. g' \<noteq> g \<longrightarrow> map_of st' g' = map_of st g'))"
proof (intro conjI allI impI)
  show "(\<exists>err. stage_asset fs a (st, out) = Inl err) \<longleftrightarrow>
            (map_of st g = None \<and> name_max < length g) \<or>
            \<not> writable_in st g ''pathname'' \<or>
            \<not> writable_in st g ''asset.meta'' \<or>
            (\<not> is_folder a \<and> \<not> falsy (asset a) \<and>
               ((\<exists>e. read_bytes fs (the (asset a)) = Inl e) \<or>
                \<not> writable_in st g ''asset''))"
    using stage_asset_Inl_iff [OF assms] .
next
  fix st' out'
  assume r: "stage_asset fs a (st, out) = Inr (st', out')"
  note eff = stage_asset_effect [OF assms r]
  from eff show "out' = out @ [Adding (path a) (take 8 g)]" by blast
  from eff show "staged_file st' g ''pathname'' = Some (path a)" by blast
  from eff show "\<exists>m. read_bytes fs (meta a) = Inr m \<and> staged_file st' g ''asset.meta'' = Some m"
    by blast
  from eff show "if \<not> is_folder a \<and> \<not> falsy (asset a)
             then \<exists>c. read_bytes fs (the (asset a)) = Inr c \<and> staged_file st' g ''asset'' = Some c
             else staged_file st' g ''asset'' = staged_file st g ''asset''" by blast
  fix g' assume "g' \<noteq> g"
  with eff show "map_of st' g' = map_of st g'" by blast
qed

text \<open>
  The folder \<open>A/d\<close> staged after the file \<open>A/f\<close>, both with the identifier \<open>ab\<close>: in the
  example package, where the copy of the file's sidecar is writable, and with a read-only
  sidecar of the file.
\<close>

theorem collision_overwrites_witness:
  "fst (extract_guid fs_pkg (meta (folder_record ''A/d''))) = Some ''ab'' \<and>
   stage_asset fs_pkg (file_record ''A/f'') ([], []) = Inr (st_file, [Adding ''A/f'' ''ab'']) \<and>
   stage_asset fs_pkg (folder_record ''A/d'') (st_file, []) = Inr (st_both, [Adding ''A/d'' ''ab'']) \<and>
   staged_file st_both ''ab'' ''pathname'' = Some (path (folder_record ''A/d'')) \<and>
   staged_file st_both ''ab'' ''asset'' = staged_file st_file ''ab'' ''asset'' \<and>
   fst (extract_guid fs_ro_pair (meta (folder_record ''A/d''))) = Some ''ab'' \<and>
   stage_asset fs_ro_pair (file_record ''A/f'') ([], []) =
     Inr (st_ro_pair, [Adding ''A/f'' ''ab'']) \<and>
   writable_in st_ro_pair ''ab'' ''asset.meta'' = False \<and>
   (\<exists>err. stage_asset fs_ro_pair (folder_record ''A/d'') (st_ro_pair, []) = Inl err)"
proof -
  have g: "fst (extract_guid fs_pkg (meta (folder_record ''A/d''))) = Some ''ab''" by code_simp
  have s1: "stage_asset fs_pkg (file_record ''A/f'') ([], []) = Inr (st_file, [Adding ''A/f'' ''ab''])"
    by code_simp
  have s2: "stage_asset fs_pkg (folder_record ''A/d'') (st_file, []) =
      Inr (st_both, [Adding ''A/d'' ''ab''])" by code_simp
  have f: "\<not> (\<not> is_folder (folder_record ''A/d'') \<and> \<not> falsy (asset (folder_record ''A/d'')))"
    by (simp add: folder_record_def)
  from collision_overwrites [OF g, of st_file "[]"] s2 f
  have c: "staged_file st_both ''ab'' ''pathname'' = Some (path (folder_record ''A/d'')) \<and>
        staged_file st_both ''ab'' ''asset'' = staged_file st_file ''ab'' ''asset''"
    by simp
  have g': "fst (extract_guid fs_ro_pair (meta (folder_record ''A/d''))) = Some ''ab''"
    by code_simp
  have s1': "stage_asset fs_ro_pair (file_record ''A/f'') ([], []) =
      Inr (st_ro_pair, [Adding ''A/f'' ''ab''])" by code_simp
  have w: "writable_in st_ro_pair ''ab'' ''asset.meta'' = False" by code_simp
  from collision_overwrites [OF g', of st_ro_pair "[]"] w
  have e: "\<exists>err. stage_asset fs_ro_pair (folder_record ''A/d'') (st_ro_pair, []) = Inl err"
    by simp
  from g s1 s2 c g' s1' w e show ?thesis by blast
qed

text \<open>
  Claim C8 as it is worded fails in the example package: the walk reaches the file \<open>A/f\<close>
  before the folder \<open>A/d\<close>, both resolve to \<open>ab\<close>, and the surviving entry still holds
  the file's content as \<open>asset\<close>, which the folder staged alone does not have. And it fails
  for the same two assets when the sidecar of the file is read-only: staging the folder
  raises \<^verbatim>\<open>PermissionError\<close> and the run ends without an archive.
\<close>

theorem collision_stated_counterexample:
  "get_all_assets fs_pkg ''A'' =
     [folder_record ''A'', folder_record ''A'', file_record ''A/f'',
      file_record ''A/Broken.cs'', folder_record ''A/d''] \<and>
   fst (extract_guid fs_pkg (meta (file_record ''A/f''))) = Some ''ab'' \<and>
   fst (extract_guid fs_pkg (meta (folder_record ''A/d''))) = Some ''ab'' \<and>
   stage_all fs_pkg [file_record ''A/f'', folder_record ''A/d''] ([], []) =
     Inr (st_both, [Adding ''A/f'' ''ab'', Adding ''A/d'' ''ab'']) \<and>
   stage_all fs_pkg [folder_record ''A/d''] ([], []) = Inr (st_folder, [Adding ''A/d'' ''ab'']) \<and>
   staged_file st_both ''ab'' ''asset'' = Some ''hello'' \<and>
   staged_file st_folder ''ab'' ''asset'' = None \<and>
   get_all_assets fs_ro_pair ''A'' = [file_record ''A/f'', folder_record ''A/d''] \<and>
   fst (extract_guid fs_ro_pair (meta (file_record ''A/f''))) = Some ''ab'' \<and>
   fst (extract_guid fs_ro_pair (meta (folder_record ''A/d''))) = Some ''ab'' \<and>
   create_unitypackage fs_ro_pair ''out.unitypackage'' ''A'' =
     \<lparr>raised = Some PermissionError, temp_dir = None, written = None,
      printed = [Creating ''out.unitypackage'', AssetsFolder ''A'', Found 2,
                 Adding ''A/f'' ''ab'', Adding ''A/d'' ''ab'']\<rparr>"
  by code_simp

section \<open>The archiver\<close>

lemma map_of_tar_add:
  "map_of (map (tar_add st) ks) k = (if k \<in> set ks then Some (snd (tar_add st k)) else None)"
  by (induction ks) (auto simp: tar_add_def)

text \<open>
  Claim C5. When the output path can be opened for writing, the archiver writes one archive
  there, in the mode \<^verbatim>\<open>w:gz\<close>, whose top-level members are the entries of the staging
  directory, name by name, each with the files the entry holds. (The bytes of the gzip and
  tar framing are not modelled.)
\<close>

theorem archive_members:
  assumes "open_for_write fs output_path = Inr ()"
  shows "\<exists>arc. write_archive fs output_path st = Inr arc \<and>
           arc_path arc = output_path \<and> arc_mode arc = ''w:gz'' \<and>
           map fst (arc_members arc) = os_listdir st \<and>
           (\<forall>item \<in> set (os_listdir st). map_of (arc_members arc) item = map_of st item)"
proof -
  let ?arc = "\<lparr>arc_path = output_path, arc_mode = ''w:gz'',
               arc_members = map (tar_add st) (os_listdir st)\<rparr>"
  have w: "write_archive fs output_path st = Inr ?arc"
    using assms by (simp add: write_archive_def)
  have n: "map fst (arc_members ?arc) = os_listdir st"
    by (simp add: tar_add_def comp_def)
  have c: "\<forall>item \<in> set (os_listdir st). map_of (arc_members ?arc) item = map_of st item"
  proof
    fix item assume i: "item \<in> set (os_listdir st)"
    then have "item \<in> fst ` set st" by (simp add: os_listdir_def)
    then have "map_of st item \<noteq> None" by (simp add: map_of_eq_None_iff)
    then obtain e where e: "map_of st item = Some e" by blast
    from i have "map_of (arc_members ?arc) item = Some (snd (tar_add st item))"
      by (simp add: map_of_tar_add)
    with e show "map_of (arc_members ?arc) item = map_of st item"
      by (simp add: tar_add_def)
  qed
  from w n c show ?thesis by simp
qed

text \<open>The archive of the example package has the two members of its staging directory.\<close>

theorem archive_members_witness:
  "open_for_write fs_pkg ''out.unitypackage'' = Inr () \<and>
   write_archive fs_pkg ''out.unitypackage'' st_pkg =
     Inr \<lparr>arc_path = ''out.unitypackage'', arc_mode = ''w:gz'', arc_members = st_pkg\<rparr> \<and>
   os_listdir st_pkg = [''12'', ''ab''] \<and>
   map_of st_pkg ''ab'' =
     Some [(''pathname'', rw_mode, ''A/d''), (''asset.meta'', rw_mode, ''guid: ab''),
           (''asset'', rw_mode, ''hello'')]"
proof -
  have o: "open_for_write fs_pkg ''out.unitypackage'' = Inr ()" by code_simp
  have l: "os_listdir st_pkg = [''12'', ''ab'']" by code_simp
  have m: "map_of st_pkg ''ab'' =
     Some [(''pathname'', rw_mode, ''A/d''), (''asset.meta'', rw_mode, ''guid: ab''),
           (''asset'', rw_mode, ''hello'')]"
    by code_simp
  have v: "write_archive fs_pkg ''out.unitypackage'' st_pkg =
     Inr \<lparr>arc_path = ''out.unitypackage'', arc_mode = ''w:gz'', arc_members = st_pkg\<rparr>"
    by code_simp
  from archive_members [OF o, of st_pkg] obtain arc where
    "write_archive fs_pkg ''out.unitypackage'' st_pkg = Inr arc"
    "map fst (arc_members arc) = os_listdir st_pkg" by blast
  with o l m v show ?thesis by simp
qed

section \<open>Cleaning up\<close>

text \<open>
  Claim C6. Whatever the \<^verbatim>\<open>try\<close> block does, whether it runs to its end or an exception
  leaves it while staging or while opening the archive, the temporary directory is there
  when the block is left and gone when \<open>create_unitypackage\<close> is.
\<close>

theorem cleanup_always:
  "(\<exists>st. temp_dir (try_block fs output_path assets out) = Some st) \<and>
   temp_dir (create_unitypackage fs output_path assets_folder) = None"
  by (auto simp: create_unitypackage_def shutil_rmtree_def try_block_def Let_def
      split: sum.splits prod.splits)

text \<open>
  Both ways out of the \<^verbatim>\<open>try\<close> block occur: the example package is archived, and copying
  the unreadable file of \<open>fs_locked\<close> raises in the middle of staging; the temporary
  directory is gone either way.
\<close>

lemma cleanup_examples:
  "raised (create_unitypackage fs_pkg ''out.unitypackage'' ''A'') = None \<and>
   temp_dir (create_unitypackage fs_pkg ''out.unitypackage'' ''A'') = None \<and>
   create_unitypackage fs_locked ''out.unitypackage'' ''A'' =
     \<lparr>raised = Some PermissionError, temp_dir = None, written = None,
      printed = [Creating ''out.unitypackage'', AssetsFolder ''A'', Found 1,
                 Adding ''A/k'' ''0a'']\<rparr>"
  by code_simp

section \<open>A source folder that is not there\<close>





end
